theory Spec2Isabelle
  imports Complex_Main "HOL-Library.AList"
begin

section \<open>Values, exceptions and the remote services\<close>

text \<open>
  The pipeline of \<^verbatim>\<open>src/fastapi/text_processor.py\<close> (class \<^verbatim>\<open>TextProcessor\<close>) is
  embedded as functions over an explicit world. Python values that travel through dicts
  and JSON are values of \<open>pyval\<close>; a dict is an association list in insertion order.
  An exception is a value of \<open>exn\<close>, and a function that may raise returns \<open>exn + 'a\<close>
  with \<open>Inl\<close> for the raise.
\<close>

datatype exn =
    JSONDecodeError | KeyError | AttributeError | TypeError | IndexError | RemoteError string

datatype pyval =
    PNone
  | PBool bool
  | PInt int
  | PFloat real
  | PStr string
  | PList "pyval list"
  | PDict "(string \<times> pyval) list"

type_synonym pydict = "(string \<times> pyval) list"

type_synonym embedding = "real list"

type_synonym vector = "string \<times> embedding \<times> pydict"

text \<open>\<^verbatim>\<open>d.get(k, default)\<close> and \<^verbatim>\<open>d.get(k)\<close> of a dict.\<close>

definition dict_get :: "pydict \<Rightarrow> string \<Rightarrow> pyval \<Rightarrow> pyval" where
  "dict_get d k dflt = (case map_of d k of Some v \<Rightarrow> v | None \<Rightarrow> dflt)"

text \<open>A node of the extracted document: a dict whose three keys may each be absent.\<close>

record node =
  content :: "string option"
  page_num :: "int option"
  image_path :: "string option"

text \<open>A match of \<^verbatim>\<open>index.query\<close>: the fields the code reads.\<close>

record match =
  score :: real
  metadata :: pydict

text \<open>
  Every remote call is recorded with its arguments and its outcome, in call order. The
  log is the observable behaviour of a run: which calls were made, with what, and which
  one failed.
\<close>

datatype call =
    EmbeddingsCreate string string "exn + embedding"
  | IndexUpsert "vector list" "exn option"
  | IndexQuery embedding int "pydict option" "exn + match list"
  | ChatCompletionsCreate string nat "exn + string"

text \<open>
  The world: the content of the Pinecone index (an association list from vector id to
  embedding and metadata) and the log of remote calls.
\<close>

record world =
  index :: "vector list"
  calls :: "call list"

text \<open>
  What lies outside the repository is a parameter: the text splitter of langchain, the
  \<^verbatim>\<open>json\<close> module, Python's \<^verbatim>\<open>str\<close> of a value inside an f-string, and the three
  remote services. A service is given the number of calls made so far, so that it may
  answer the same request differently at different times (and fail at any call).
\<close>

record env =
  split_text :: "string \<Rightarrow> string list"
  json_dumps :: "pyval \<Rightarrow> string"
  json_loads :: "string \<Rightarrow> exn + pyval"
  str_of :: "pyval \<Rightarrow> string"
  embeddings_create :: "nat \<Rightarrow> string \<Rightarrow> string \<Rightarrow> exn + embedding"
  index_upsert :: "nat \<Rightarrow> vector list \<Rightarrow> exn option"
  index_query :: "nat \<Rightarrow> embedding \<Rightarrow> int \<Rightarrow> pydict option \<Rightarrow> exn + match list"
  chat_completions_create :: "nat \<Rightarrow> string \<Rightarrow> nat \<Rightarrow> exn + string"

section \<open>The embedder and the vector store\<close>

text \<open>\<^verbatim>\<open>create_embedding\<close>: one remote call; its handler logs and re-raises.\<close>

definition create_embedding :: "env \<Rightarrow> string \<Rightarrow> string \<Rightarrow> world \<Rightarrow> (exn + embedding) \<times> world" where
  "create_embedding E text input_type w =
     (let response = embeddings_create E (length (calls w)) text input_type
      in (response, w\<lparr>calls := calls w @ [EmbeddingsCreate text input_type response]\<rparr>))"

text \<open>
  \<^verbatim>\<open>index.upsert(vectors=...)\<close>: a successful call writes every record under its id,
  overwriting a record with the same id; a failed call leaves the index as it was.
\<close>

definition upsert_record :: "vector \<Rightarrow> vector list \<Rightarrow> vector list" where
  "upsert_record r ix = AList.update (fst r) (snd r) ix"

definition upsert :: "env \<Rightarrow> vector list \<Rightarrow> world \<Rightarrow> exn option \<times> world" where
  "upsert E vectors w =
     (case index_upsert E (length (calls w)) vectors of
        None \<Rightarrow> (None, w\<lparr>index := fold upsert_record vectors (index w),
                          calls := calls w @ [IndexUpsert vectors None]\<rparr>)
      | Some e \<Rightarrow> (Some e, w\<lparr>calls := calls w @ [IndexUpsert vectors (Some e)]\<rparr>))"

definition query :: "env \<Rightarrow> embedding \<Rightarrow> int \<Rightarrow> pydict option \<Rightarrow> world \<Rightarrow> (exn + match list) \<times> world" where
  "query E v top_k filter_condition w =
     (let results = index_query E (length (calls w)) v top_k filter_condition
      in (results, w\<lparr>calls := calls w @ [IndexQuery v top_k filter_condition results]\<rparr>))"

section \<open>Indexing: \<^verbatim>\<open>process_nodes_and_store\<close>\<close>

text \<open>Python's \<^verbatim>\<open>str\<close> of a non-negative integer, as the f-string of the vector id formats
  the two \<^verbatim>\<open>enumerate\<close> indices.\<close>

definition digit_char :: "nat \<Rightarrow> char" where
  "digit_char d = char_of (48 + d)"

fun str_nat :: "nat \<Rightarrow> string" where
  "str_nat n = (if n < 10 then [digit_char n] else str_nat (n div 10) @ [digit_char (n mod 10)])"

declare str_nat.simps [simp del]

text \<open>\<^verbatim>\<open>f"{pdf_id}_node{node_idx}_chunk{chunk_idx}"\<close>\<close>

definition vector_id :: "string \<Rightarrow> nat \<Rightarrow> nat \<Rightarrow> string" where
  "vector_id pdf_id node_idx chunk_idx =
     pdf_id @ ''_node'' @ str_nat node_idx @ ''_chunk'' @ str_nat chunk_idx"

text \<open>The \<^verbatim>\<open>node_info\<close> dict of a chunk, with \<^verbatim>\<open>None\<close> replaced by the empty string.\<close>

definition node_info :: "node \<Rightarrow> string \<Rightarrow> pyval" where
  "node_info nd chunk = PDict
     [(''page_num'', (case page_num nd of Some p \<Rightarrow> PInt p | None \<Rightarrow> PStr '''')),
      (''image_path'', (case image_path nd of Some p \<Rightarrow> PStr p | None \<Rightarrow> PStr '''')),
      (''content'', PStr chunk)]"

definition chunk_metadata :: "env \<Rightarrow> string \<Rightarrow> nat \<Rightarrow> node \<Rightarrow> nat \<Rightarrow> string \<Rightarrow> pydict" where
  "chunk_metadata E pdf_id node_idx nd chunk_idx chunk =
     [(''pdf_id'', PStr pdf_id),
      (''chunk_index'', PInt (int chunk_idx)),
      (''node_index'', PInt (int node_idx)),
      (''text'', PStr (json_dumps E (node_info nd chunk)))]"

text \<open>
  The inner loop, over \<^verbatim>\<open>enumerate(chunks)\<close> from \<open>chunk_idx\<close> on. It carries the batch
  buffer \<^verbatim>\<open>vectors\<close>; a full buffer (50 records) is upserted and reset. The cooldown
  \<^verbatim>\<open>time.sleep(0.5)\<close> after a full batch changes nothing in the world, and neither do the
  \<^verbatim>\<open>logger.info\<close> lines, which are left out: what they print of a node or of a
  \<^verbatim>\<open>node_info\<close> is JSON of values that this model can always print.
\<close>

fun chunk_loop ::
  "env \<Rightarrow> string \<Rightarrow> nat \<Rightarrow> node \<Rightarrow> nat \<Rightarrow> string list \<Rightarrow> vector list \<Rightarrow> world
    \<Rightarrow> (exn + vector list) \<times> world" where
  "chunk_loop E pdf_id node_idx nd chunk_idx [] vectors w = (Inr vectors, w)"
| "chunk_loop E pdf_id node_idx nd chunk_idx (chunk # chunks) vectors w =
     (case create_embedding E chunk ''passage'' w of
        (Inl e, w1) \<Rightarrow> (Inl e, w1)
      | (Inr embedding, w1) \<Rightarrow>
          (let vectors1 = vectors @ [(vector_id pdf_id node_idx chunk_idx, embedding,
                                      chunk_metadata E pdf_id node_idx nd chunk_idx chunk)]
           in if length vectors1 \<ge> 50
              then (case upsert E vectors1 w1 of
                      (Some e, w2) \<Rightarrow> (Inl e, w2)
                    | (None, w2) \<Rightarrow>
                        chunk_loop E pdf_id node_idx nd (Suc chunk_idx) chunks [] w2)
              else chunk_loop E pdf_id node_idx nd (Suc chunk_idx) chunks vectors1 w1))"

text \<open>\<^verbatim>\<open>node.get('content', '')\<close>\<close>

definition get_content :: "node \<Rightarrow> string" where
  "get_content nd = (case content nd of Some c \<Rightarrow> c | None \<Rightarrow> '''')"

text \<open>
  The outer loop, over \<^verbatim>\<open>enumerate(nodes)\<close> from \<open>node_idx\<close> on. The flush of the
  remaining vectors stands inside this loop, after the chunks of each node, and does not
  reset the buffer: the next node goes on with the same \<^verbatim>\<open>vectors\<close>.
\<close>

fun node_loop ::
  "env \<Rightarrow> string \<Rightarrow> nat \<Rightarrow> node list \<Rightarrow> vector list \<Rightarrow> world \<Rightarrow> (exn + vector list) \<times> world" where
  "node_loop E pdf_id node_idx [] vectors w = (Inr vectors, w)"
| "node_loop E pdf_id node_idx (nd # nodes) vectors w =
     (let chunks = split_text E (get_content nd)
      in case chunk_loop E pdf_id node_idx nd 0 chunks vectors w of
           (Inl e, w1) \<Rightarrow> (Inl e, w1)
         | (Inr vectors1, w1) \<Rightarrow>
             if vectors1 \<noteq> []
             then (case upsert E vectors1 w1 of
                     (Some e, w2) \<Rightarrow> (Inl e, w2)
                   | (None, w2) \<Rightarrow> node_loop E pdf_id (Suc node_idx) nodes vectors1 w2)
             else node_loop E pdf_id (Suc node_idx) nodes vectors1 w1)"

text \<open>The handler of \<^verbatim>\<open>process_nodes_and_store\<close> logs and re-raises the exception as it is.\<close>

definition process_nodes_and_store :: "env \<Rightarrow> node list \<Rightarrow> string \<Rightarrow> world \<Rightarrow> (exn + unit) \<times> world" where
  "process_nodes_and_store E nodes pdf_id w =
     (case node_loop E pdf_id 0 nodes [] w of
        (Inl e, w') \<Rightarrow> (Inl e, w')
      | (Inr vectors, w') \<Rightarrow> (Inr (), w'))"

section \<open>Search: \<^verbatim>\<open>search_similar\<close>\<close>

text \<open>
  \<^verbatim>\<open>json.loads(x)\<close>: a value that is not a string raises TypeError before any parsing;
  a string is handed to the parser of the \<^verbatim>\<open>json\<close> module.
\<close>

definition loads :: "env \<Rightarrow> pyval \<Rightarrow> exn + pyval" where
  "loads E x = (case x of PStr s \<Rightarrow> json_loads E s | _ \<Rightarrow> Inl TypeError)"

text \<open>\<^verbatim>\<open>v.get(k, default)\<close> on an arbitrary value: only a dict has the method.\<close>

definition method_get :: "pyval \<Rightarrow> string \<Rightarrow> pyval \<Rightarrow> exn + pyval" where
  "method_get v k dflt = (case v of PDict d \<Rightarrow> Inr (dict_get d k dflt) | _ \<Rightarrow> Inl AttributeError)"

text \<open>The body of the \<^verbatim>\<open>try\<close> for one match.\<close>

definition structured_result :: "env \<Rightarrow> match \<Rightarrow> exn + pyval" where
  "structured_result E m =
     (case loads E (dict_get (metadata m) ''text'' (PStr ''{}'')) of
        Inl e \<Rightarrow> Inl e
      | Inr info \<Rightarrow>
          (case method_get info ''page_num'' (PStr '''') of
             Inl e \<Rightarrow> Inl e
           | Inr pn \<Rightarrow>
               (case method_get info ''image_path'' (PStr '''') of
                  Inl e \<Rightarrow> Inl e
                | Inr ip \<Rightarrow>
                    (case method_get info ''content'' (PStr '''') of
                       Inl e \<Rightarrow> Inl e
                     | Inr c \<Rightarrow>
                         Inr (PDict
                           [(''score'', PFloat (score m)),
                            (''pdf_id'', dict_get (metadata m) ''pdf_id'' PNone),
                            (''chunk_index'', dict_get (metadata m) ''chunk_index'' PNone),
                            (''page_num'', pn),
                            (''image_path'', ip),
                            (''content'', c)])))))"

text \<open>The handler of \<^verbatim>\<open>except (json.JSONDecodeError, KeyError)\<close>.\<close>

definition fallback_result :: "match \<Rightarrow> pyval" where
  "fallback_result m = PDict
     [(''score'', PFloat (score m)),
      (''pdf_id'', dict_get (metadata m) ''pdf_id'' PNone),
      (''chunk_index'', dict_get (metadata m) ''chunk_index'' PNone),
      (''page_num'', PStr ''''),
      (''image_path'', PStr ''''),
      (''content'', dict_get (metadata m) ''text'' (PStr ''''))]"

definition format_match :: "env \<Rightarrow> match \<Rightarrow> exn + pyval" where
  "format_match E m =
     (case structured_result E m of
        Inr r \<Rightarrow> Inr r
      | Inl e \<Rightarrow> if e = JSONDecodeError \<or> e = KeyError then Inr (fallback_result m) else Inl e)"

text \<open>The loop over \<^verbatim>\<open>results.matches\<close>, appending to \<^verbatim>\<open>formatted_results\<close>.\<close>

fun format_matches :: "env \<Rightarrow> match list \<Rightarrow> pyval list \<Rightarrow> exn + pyval list" where
  "format_matches E [] formatted_results = Inr formatted_results"
| "format_matches E (m # ms) formatted_results =
     (case format_match E m of
        Inl e \<Rightarrow> Inl e
      | Inr r \<Rightarrow> format_matches E ms (formatted_results @ [r]))"

definition search_similar ::
  "env \<Rightarrow> string \<Rightarrow> int \<Rightarrow> pydict option \<Rightarrow> world \<Rightarrow> (exn + pyval list) \<times> world" where
  "search_similar E query_text top_k filter_condition w =
     (case create_embedding E query_text ''query'' w of
        (Inl e, w1) \<Rightarrow> (Inl e, w1)
      | (Inr query_embedding, w1) \<Rightarrow>
          (case query E query_embedding top_k filter_condition w1 of
             (Inl e, w2) \<Rightarrow> (Inl e, w2)
           | (Inr matches, w2) \<Rightarrow> (format_matches E matches [], w2)))"

section \<open>Answering: \<^verbatim>\<open>generate_answer_from_chunks\<close> and \<^verbatim>\<open>search_and_answer\<close>\<close>

text \<open>\<^verbatim>\<open>v[k]\<close> with a string key: KeyError on a dict without the key, TypeError on any
  value that is not a dict.\<close>

definition subscript :: "pyval \<Rightarrow> string \<Rightarrow> exn + pyval" where
  "subscript v k =
     (case v of
        PDict d \<Rightarrow> (case map_of d k of Some x \<Rightarrow> Inr x | None \<Rightarrow> Inl KeyError)
      | _ \<Rightarrow> Inl TypeError)"

fun join :: "string \<Rightarrow> string list \<Rightarrow> string" where
  "join sep [] = ''''"
| "join sep [x] = x"
| "join sep (x # y # ys) = x @ sep @ join sep (y # ys)"

text \<open>The list comprehension of the context, over \<^verbatim>\<open>enumerate(chunks)\<close> from \<open>i\<close> on.\<close>

fun chunk_texts :: "env \<Rightarrow> nat \<Rightarrow> pyval list \<Rightarrow> exn + string list" where
  "chunk_texts E i [] = Inr []"
| "chunk_texts E i (chunk # chunks) =
     (case subscript chunk ''metadata'' of
        Inl e \<Rightarrow> Inl e
      | Inr md \<Rightarrow>
          (case subscript md ''text'' of
             Inl e \<Rightarrow> Inl e
           | Inr t \<Rightarrow>
               (case chunk_texts E (Suc i) chunks of
                  Inl e \<Rightarrow> Inl e
                | Inr rest \<Rightarrow>
                    Inr ((''Chunk '' @ str_nat (i + 1) @ '':'' @ [CHR 0x0A] @ str_of E t) # rest))))"

definition make_prompt :: "string \<Rightarrow> string \<Rightarrow> string" where
  "make_prompt query_text context_text =
     ''Please provide a comprehensive answer to the following question using only the provided context. ''
     @ [CHR 0x0A]
     @ ''            If the answer cannot be fully derived from the context, please say so.''
     @ [CHR 0x0A, CHR 0x0A]
     @ ''            Question: '' @ query_text
     @ [CHR 0x0A, CHR 0x0A]
     @ ''            Context:''
     @ [CHR 0x0A]
     @ ''            '' @ context_text
     @ [CHR 0x0A, CHR 0x0A]
     @ ''            Please provide a detailed answer and cite specific parts of the context where appropriate.''"

definition generate_answer_from_chunks ::
  "env \<Rightarrow> string \<Rightarrow> pyval list \<Rightarrow> nat \<Rightarrow> world \<Rightarrow> (exn + string) \<times> world" where
  "generate_answer_from_chunks E query_text chunks max_tokens w =
     (case chunk_texts E 0 chunks of
        Inl e \<Rightarrow> (Inl e, w)
      | Inr texts \<Rightarrow>
          (let prompt = make_prompt query_text (join [CHR 0x0A, CHR 0x0A] texts);
               response = chat_completions_create E (length (calls w)) prompt max_tokens
           in (response, w\<lparr>calls := calls w @ [ChatCompletionsCreate prompt max_tokens response]\<rparr>)))"

text \<open>
  \<^verbatim>\<open>search_results.matches\<close> in \<^verbatim>\<open>search_and_answer\<close>: \<^verbatim>\<open>search_results\<close> is what
  \<^verbatim>\<open>search_similar\<close> returned, a Python list (of dicts), and a list has no attribute
  \<^verbatim>\<open>matches\<close>: the attribute access raises AttributeError, whatever the list holds.
\<close>

definition list_matches :: "pyval list \<Rightarrow> exn + match list" where
  "list_matches search_results = Inl AttributeError"

definition search_and_answer :: "env \<Rightarrow> string \<Rightarrow> int \<Rightarrow> world \<Rightarrow> (exn + pyval) \<times> world" where
  "search_and_answer E query_text top_k w =
     (case search_similar E query_text top_k None w of
        (Inl e, w1) \<Rightarrow> (Inl e, w1)
      | (Inr search_results, w1) \<Rightarrow>
          (case list_matches search_results of
             Inl e \<Rightarrow> (Inl e, w1)
           | Inr matches \<Rightarrow>
               (let chunks = map (\<lambda>m. PDict [(''score'', PFloat (score m)),
                                              (''metadata'', PDict (metadata m))]) matches
                in case generate_answer_from_chunks E query_text chunks 1000 w1 of
                     (Inl e, w2) \<Rightarrow> (Inl e, w2)
                   | (Inr answer, w2) \<Rightarrow>
                       (Inr (PDict [(''query'', PStr query_text),
                                    (''answer'', PStr answer),
                                    (''supporting_chunks'', PList chunks),
                                    (''total_chunks'', PInt (int (length chunks)))]), w2))))"

section \<open>The chunker\<close>

text \<open>
  Modelled from the spec: the chunker (spec 4.1). The repository only configures and
  calls the recursive character splitter of the langchain library
  (\<^verbatim>\<open>chunk_size=1000\<close>, \<^verbatim>\<open>chunk_overlap=50\<close>, \<^verbatim>\<open>length_function=len\<close>, separators
  paragraph break, line break, sentence end, space, empty string); the splitter itself is
  not among the sources. The definitions of this section follow the spec's words: split
  on the coarsest separator of a prioritised list, fall back to finer separators for a
  piece that is still too long, end with a cut into single characters, merge the pieces
  into chunks up to the maximum length, and keep up to the overlap of the last chunk's
  pieces at the head of the next. They do so in the way the library's splitter works:
  separators are kept at the head of the piece that follows, merged chunks are stripped
  of surrounding white space, and an empty chunk is dropped.

  White space as \<^verbatim>\<open>str.strip\<close> removes it, for characters below 256.
\<close>

definition is_space :: "char \<Rightarrow> bool" where
  "is_space c = ((of_char c :: nat) \<in> {9, 10, 11, 12, 13, 28, 29, 30, 31, 32, 133, 160})"

definition strip :: "string \<Rightarrow> string" where
  "strip s = rev (dropWhile is_space (rev (dropWhile is_space s)))"

definition join_docs :: "string list \<Rightarrow> string option" where
  "join_docs docs = (let text = strip (concat docs) in if text = '''' then None else Some text)"

definition add_doc :: "string list \<Rightarrow> string list \<Rightarrow> string list" where
  "add_doc docs current = (case join_docs current of None \<Rightarrow> docs | Some doc \<Rightarrow> docs @ [doc])"

text \<open>
  Modelled from the spec: the overlap rule of the chunker. After a chunk is emitted, its
  leading pieces are dropped while more than the overlap is left, or while the next piece
  would still not fit. \<open>pop_front\<close> returns \<open>None\<close> where the program would index an
  empty list.
\<close>

definition keep_popping :: "nat \<Rightarrow> nat \<Rightarrow> nat \<Rightarrow> int \<Rightarrow> bool" where
  "keep_popping csize overlap len tot \<longleftrightarrow>
     tot > int overlap \<or> (tot + int len > int csize \<and> tot > 0)"

fun pop_front :: "nat \<Rightarrow> nat \<Rightarrow> nat \<Rightarrow> string list \<Rightarrow> int \<Rightarrow> (string list \<times> int) option" where
  "pop_front csize overlap len [] tot =
     (if keep_popping csize overlap len tot then None
      else Some ([], tot))"
| "pop_front csize overlap len (x # xs) tot =
     (if keep_popping csize overlap len tot
      then pop_front csize overlap len xs (tot - int (length x))
      else Some (x # xs, tot))"

text \<open>
  Modelled from the spec: merging pieces into chunks. The loop keeps the current chunk as
  a list of pieces with the sum of their lengths; a piece that would take the chunk over
  the maximum length closes the chunk first.
\<close>

fun merge_loop ::
  "nat \<Rightarrow> nat \<Rightarrow> string list \<Rightarrow> string list \<Rightarrow> int \<Rightarrow> string list \<Rightarrow> string list option" where
  "merge_loop csize overlap [] current tot docs = Some (add_doc docs current)"
| "merge_loop csize overlap (d # ds) current tot docs =
     (if tot + int (length d) > int csize \<and> current \<noteq> []
      then (case pop_front csize overlap (length d) current tot of
              None \<Rightarrow> None
            | Some (current1, tot1) \<Rightarrow>
                merge_loop csize overlap ds (current1 @ [d]) (tot1 + int (length d))
                  (add_doc docs current))
      else merge_loop csize overlap ds (current @ [d]) (tot + int (length d)) docs)"

definition merge_splits :: "nat \<Rightarrow> nat \<Rightarrow> string list \<Rightarrow> string list option" where
  "merge_splits csize overlap splits = merge_loop csize overlap splits [] 0 []"

text \<open>
  Modelled from the spec: splitting a text at the occurrences of a separator, leftmost
  first and without overlap; \<open>split_with\<close> gives the pieces with the separator kept at
  the head of each piece after the first, and the empty pieces left out. With the empty
  separator the pieces are the single characters.
\<close>

function split_on :: "string \<Rightarrow> string \<Rightarrow> string \<Rightarrow> string list" where
  "split_on sep acc [] = [rev acc]"
| "split_on sep acc (c # cs) =
     (if sep \<noteq> [] \<and> take (length sep) (c # cs) = sep
      then rev acc # split_on sep [] (drop (length sep) (c # cs))
      else split_on sep (c # acc) cs)"
  by pat_completeness auto

termination
  by (relation "measure (\<lambda>(sep, acc, s). length s)") auto

definition occurs :: "string \<Rightarrow> string \<Rightarrow> bool" where
  "occurs sep s = (length (split_on sep [] s) > 1)"

definition split_with :: "string \<Rightarrow> string \<Rightarrow> string list" where
  "split_with sep s =
     filter (\<lambda>p. p \<noteq> '''')
       (if sep = '''' then map (\<lambda>c. [c]) s
        else (case split_on sep [] s of
                [] \<Rightarrow> []
              | p # ps \<Rightarrow> p # map (\<lambda>q. sep @ q) ps))"

text \<open>
  Modelled from the spec: the recursion over the separators. The first separator of the
  list that occurs in the text (or the empty one) splits it; the separators after it are
  the ones a piece of the maximum length or more is split with in turn. Pieces shorter
  than the maximum are collected and merged.
\<close>

function split_text_rec :: "nat \<Rightarrow> nat \<Rightarrow> string list \<Rightarrow> string \<Rightarrow> string list option"
  and split_loop ::
    "nat \<Rightarrow> nat \<Rightarrow> string list \<Rightarrow> string list \<Rightarrow> string list \<Rightarrow> string list \<Rightarrow> string list option"
  where
  "split_text_rec csize overlap [] s = None"
| "split_text_rec csize overlap (sep # rest) s =
     (if sep = '''' then split_loop csize overlap [] (split_with sep s) [] []
      else if occurs sep s then split_loop csize overlap rest (split_with sep s) [] []
      else if rest = [] then split_loop csize overlap [] (split_with sep s) [] []
      else split_text_rec csize overlap rest s)"
| "split_loop csize overlap new_separators [] good_splits final_chunks =
     (if good_splits \<noteq> []
      then (case merge_splits csize overlap good_splits of
              None \<Rightarrow> None
            | Some merged \<Rightarrow> Some (final_chunks @ merged))
      else Some final_chunks)"
| "split_loop csize overlap new_separators (p # ps) good_splits final_chunks =
     (if length p < csize then split_loop csize overlap new_separators ps (good_splits @ [p]) final_chunks
      else (case (if good_splits \<noteq> [] then merge_splits csize overlap good_splits else Some []) of
              None \<Rightarrow> None
            | Some merged \<Rightarrow>
                if new_separators = []
                then split_loop csize overlap new_separators ps [] (final_chunks @ merged @ [p])
                else (case split_text_rec csize overlap new_separators p of
                        None \<Rightarrow> None
                      | Some other \<Rightarrow>
                          split_loop csize overlap new_separators ps [] (final_chunks @ merged @ other))))"
  by pat_completeness auto

termination
  by (relation "measures
        [\<lambda>x. case x of Inl (csize, overlap, seps, s) \<Rightarrow> 2 * length seps
                      | Inr (csize, overlap, ns, ps, gs, fs) \<Rightarrow> 2 * length ns + 1,
         \<lambda>x. case x of Inl (csize, overlap, seps, s) \<Rightarrow> 0
                      | Inr (csize, overlap, ns, ps, gs, fs) \<Rightarrow> length ps]") auto

text \<open>
  Modelled from the spec: the configuration of \<^verbatim>\<open>TextProcessor.__init__\<close> and
  \<^verbatim>\<open>chunk_text\<close>, which hands the text to the splitter and re-raises what it raises.
\<close>

definition separators :: "string list" where
  "separators = [[CHR 0x0A, CHR 0x0A], [CHR 0x0A], ''. '', '' '', '''']"

definition chunk_text :: "string \<Rightarrow> exn + string list" where
  "chunk_text s =
     (case split_text_rec 1000 50 separators s of
        None \<Rightarrow> Inl IndexError
      | Some chunks \<Rightarrow> Inr chunks)"

section \<open>Logs, ids and results\<close>

text \<open>
  The statements below speak about what a run did through the log of its remote calls
  and through the index. The functions of this section read both.
\<close>

text \<open>
  The exception a logged call ended with; \<open>None\<close> for a call that succeeded.
\<close>

fun call_error :: "call \<Rightarrow> exn option" where
  "call_error (EmbeddingsCreate t ty r) = (case r of Inl e \<Rightarrow> Some e | Inr v \<Rightarrow> None)"
| "call_error (IndexUpsert vs r) = r"
| "call_error (IndexQuery v k f r) = (case r of Inl e \<Rightarrow> Some e | Inr ms \<Rightarrow> None)"
| "call_error (ChatCompletionsCreate p m r) = (case r of Inl e \<Rightarrow> Some e | Inr a \<Rightarrow> None)"

text \<open>
  The records of the upsert calls of a log that succeeded, in the order they were sent:
  what the log says was written to the index.
\<close>

fun written :: "call list \<Rightarrow> vector list" where
  "written [] = []"
| "written (IndexUpsert vs None # cs) = vs @ written cs"
| "written (c # cs) = written cs"

text \<open>
  The batch of every upsert call of a log, in call order, whatever its outcome.
\<close>

fun batches :: "call list \<Rightarrow> vector list list" where
  "batches [] = []"
| "batches (IndexUpsert vs r # cs) = vs # batches cs"
| "batches (c # cs) = batches cs"

text \<open>
  The texts of the embedding calls of a log, in call order.
\<close>

fun embedded :: "call list \<Rightarrow> string list" where
  "embedded [] = []"
| "embedded (EmbeddingsCreate t ty r # cs) = t # embedded cs"
| "embedded (c # cs) = embedded cs"

text \<open>
  The ids of the chunks of one node from a chunk index on, and the ids of all chunks of
  a node sequence from a node index on: the ids a complete run over the nodes writes.
\<close>

fun chunk_ids :: "string \<Rightarrow> nat \<Rightarrow> nat \<Rightarrow> string list \<Rightarrow> string list" where
  "chunk_ids pdf_id node_idx chunk_idx [] = []"
| "chunk_ids pdf_id node_idx chunk_idx (chunk # chunks) =
     vector_id pdf_id node_idx chunk_idx # chunk_ids pdf_id node_idx (Suc chunk_idx) chunks"

fun node_ids :: "env \<Rightarrow> string \<Rightarrow> nat \<Rightarrow> node list \<Rightarrow> string list" where
  "node_ids E pdf_id node_idx [] = []"
| "node_ids E pdf_id node_idx (nd # nodes) =
     chunk_ids pdf_id node_idx 0 (split_text E (get_content nd)) @ node_ids E pdf_id (Suc node_idx) nodes"

text \<open>
  Decimal digits, and the number that a string of digits denotes.
\<close>

definition is_digit :: "char \<Rightarrow> bool" where
  "is_digit c = (48 \<le> (of_char c :: nat) \<and> (of_char c :: nat) \<le> 57)"

definition digits_value :: "string \<Rightarrow> nat" where
  "digits_value s = foldl (\<lambda>a c. 10 * a + (of_char c - 48)) 0 s"

text \<open>
  A parsed JSON value that is an object.
\<close>

definition is_dict :: "pyval \<Rightarrow> bool" where
  "is_dict v = (case v of PDict d \<Rightarrow> True | _ \<Rightarrow> False)"

text \<open>
  The score of a formatted result (of the dict \<^verbatim>\<open>search_similar\<close> builds for a match).
\<close>

definition result_score :: "pyval \<Rightarrow> real" where
  "result_score r =
     (case r of
        PDict d \<Rightarrow> (case map_of d ''score'' of Some (PFloat x) \<Rightarrow> x | _ \<Rightarrow> 0)
      | _ \<Rightarrow> 0)"

text \<open>
  Every chunk of a list has at most \<open>csize\<close> characters.
\<close>

definition bounded :: "nat \<Rightarrow> string list \<Rightarrow> bool" where
  "bounded csize chunks = (\<forall>c\<in>set chunks. length c \<le> csize)"

section \<open>The invariant of the indexing loops\<close>

text \<open>
  The calls a run has added to the log \<open>base\<close> it started with.
\<close>

definition news :: "call list \<Rightarrow> world \<Rightarrow> call list" where
  "news base w = drop (length base) (calls w)"

text \<open>
  The loops of \<^verbatim>\<open>process_nodes_and_store\<close> keep an invariant over the records they
  have made so far (those in the buffer and those already sent): no two of them share an
  id (\<open>consistent\<close>), because the id of every record made so far is the id of a position
  before the current one (\<open>below\<close>) and the id scheme is injective.
\<close>

definition consistent :: "vector set \<Rightarrow> bool" where
  "consistent S = (\<forall>r\<in>S. \<forall>r'\<in>S. fst r = fst r' \<longrightarrow> r = r')"

definition below :: "string \<Rightarrow> nat \<Rightarrow> nat \<Rightarrow> vector \<Rightarrow> bool" where
  "below pdf n c r = (\<exists>n' c'. fst r = vector_id pdf n' c' \<and> (n' < n \<or> (n' = n \<and> c' < c)))"

text \<open>
  The invariant of a run that has not failed, at node \<open>n\<close> and chunk \<open>c\<close>, with buffer
  \<open>vectors\<close>: every call so far succeeded, the index is the index \<open>ix0\<close> of the start
  with the sent records written over it in order, the records made so far are consistent
  and lie before the current position, and \<open>I\<close> is the set of their ids.
\<close>

definition good ::
  "string \<Rightarrow> call list \<Rightarrow> vector list \<Rightarrow> nat \<Rightarrow> nat \<Rightarrow> string set \<Rightarrow> vector list \<Rightarrow> world \<Rightarrow> bool" where
  "good pdf base ix0 n c I vectors w \<longleftrightarrow>
     calls w = base @ news base w \<and>
     (\<forall>cl\<in>set (news base w). call_error cl = None) \<and>
     index w = fold upsert_record (written (news base w)) ix0 \<and>
     consistent (set vectors \<union> set (written (news base w))) \<and>
     (\<forall>r\<in>set vectors \<union> set (written (news base w)). below pdf n c r) \<and>
     fst ` (set vectors \<union> set (written (news base w))) = I"

text \<open>
  What holds of a run that failed: its last call is the one that failed, every call
  before it succeeded, and the index is the index of the start with the records of the
  successful upserts written over it.
\<close>

definition failed ::
  "call list \<Rightarrow> vector list \<Rightarrow> string set \<Rightarrow> exn \<Rightarrow> world \<Rightarrow> bool" where
  "failed base ix0 I e w \<longleftrightarrow>
     calls w = base @ news base w \<and>
     (\<exists>pre cl. news base w = pre @ [cl] \<and> (\<forall>c\<in>set pre. call_error c = None) \<and> call_error cl = Some e) \<and>
     index w = fold upsert_record (written (news base w)) ix0 \<and>
     consistent (set (written (news base w))) \<and>
     fst ` set (written (news base w)) \<subseteq> I"

section \<open>An environment for the worked examples\<close>

text \<open>
  The concrete inputs of the examples need a concrete environment. Its JSON functions are
  a small printer and reader for the values of \<open>pyval\<close> in the notation of Python's
  \<^verbatim>\<open>json.dumps\<close> (\<open>", "\<close> and \<open>": "\<close> as separators); they stand for the \<^verbatim>\<open>json\<close>
  module in the examples only, and no general statement depends on them.
\<close>

text \<open>
  The printer. A float has no decimal notation here and is not printed by any example.
\<close>

definition str_int :: "int \<Rightarrow> string" where
  "str_int i = (if i < 0 then CHR ''-'' # str_nat (nat (- i)) else str_nat (nat i))"

definition escape_char :: "char \<Rightarrow> string" where
  "escape_char c =
     (if c = CHR 0x22 then [CHR 0x5C, CHR 0x22]
      else if c = CHR 0x5C then [CHR 0x5C, CHR 0x5C]
      else if c = CHR 0x0A then [CHR 0x5C, CHR ''n'']
      else [c])"

definition quote :: "string \<Rightarrow> string" where
  "quote s = [CHR 0x22] @ concat (map escape_char s) @ [CHR 0x22]"

fun encode :: "pyval \<Rightarrow> string"
  and encode_items :: "pyval list \<Rightarrow> string"
  and encode_members :: "(string \<times> pyval) list \<Rightarrow> string" where
  "encode PNone = ''null''"
| "encode (PBool b) = (if b then ''true'' else ''false'')"
| "encode (PInt i) = str_int i"
| "encode (PFloat x) = ''NaN''"
| "encode (PStr s) = quote s"
| "encode (PList vs) = ''['' @ encode_items vs @ '']''"
| "encode (PDict kvs) = ''{'' @ encode_members kvs @ ''}''"
| "encode_items [] = ''''"
| "encode_items [v] = encode v"
| "encode_items (v # v' # vs) = encode v @ '', '' @ encode_items (v' # vs)"
| "encode_members [] = ''''"
| "encode_members [(k, v)] = quote k @ '': '' @ encode v"
| "encode_members ((k, v) # kv # kvs) = quote k @ '': '' @ encode v @ '', '' @ encode_members (kv # kvs)"

text \<open>
  The reader: a recursive descent over the text, with fuel for the nesting depth.
\<close>

definition is_ws :: "char \<Rightarrow> bool" where
  "is_ws c = (c = CHR '' '' \<or> c = CHR 0x0A \<or> c = CHR 0x09 \<or> c = CHR 0x0D)"

fun parse_chars :: "string \<Rightarrow> string \<Rightarrow> (string \<times> string) option" where
  "parse_chars acc [] = None"
| "parse_chars acc [c] = (if c = CHR 0x22 then Some (rev acc, []) else None)"
| "parse_chars acc (c # d # ds) =
     (if c = CHR 0x22 then Some (rev acc, d # ds)
      else if c = CHR 0x5C then
        (if d = CHR 0x22 \<or> d = CHR 0x5C then parse_chars (d # acc) ds
         else if d = CHR ''n'' then parse_chars (CHR 0x0A # acc) ds
         else None)
      else parse_chars (c # acc) (d # ds))"

fun parse_value :: "nat \<Rightarrow> string \<Rightarrow> (pyval \<times> string) option"
  and parse_items :: "nat \<Rightarrow> string \<Rightarrow> (pyval list \<times> string) option"
  and parse_members :: "nat \<Rightarrow> string \<Rightarrow> ((string \<times> pyval) list \<times> string) option" where
  "parse_value 0 s = None"
| "parse_value (Suc n) s =
     (case dropWhile is_ws s of
        [] \<Rightarrow> None
      | c # cs \<Rightarrow>
          if c = CHR ''n'' then (if take 3 cs = ''ull'' then Some (PNone, drop 3 cs) else None)
          else if c = CHR ''t'' then (if take 3 cs = ''rue'' then Some (PBool True, drop 3 cs) else None)
          else if c = CHR ''f'' then (if take 4 cs = ''alse'' then Some (PBool False, drop 4 cs) else None)
          else if c = CHR 0x22 then
            (case parse_chars [] cs of None \<Rightarrow> None | Some (t, r) \<Rightarrow> Some (PStr t, r))
          else if c = CHR ''['' then
            (case dropWhile is_ws cs of
               [] \<Rightarrow> None
             | d # ds \<Rightarrow>
                 if d = CHR '']'' then Some (PList [], ds)
                 else (case parse_items n cs of None \<Rightarrow> None | Some (vs, r) \<Rightarrow> Some (PList vs, r)))
          else if c = CHR ''{'' then
            (case dropWhile is_ws cs of
               [] \<Rightarrow> None
             | d # ds \<Rightarrow>
                 if d = CHR ''}'' then Some (PDict [], ds)
                 else (case parse_members n cs of None \<Rightarrow> None | Some (kvs, r) \<Rightarrow> Some (PDict kvs, r)))
          else if c = CHR ''-'' \<and> takeWhile is_digit cs \<noteq> [] then
            Some (PInt (- int (digits_value (takeWhile is_digit cs))), dropWhile is_digit cs)
          else if is_digit c then
            Some (PInt (int (digits_value (takeWhile is_digit (c # cs)))), dropWhile is_digit cs)
          else None)"
| "parse_items 0 s = None"
| "parse_items (Suc n) s =
     (case parse_value n s of
        None \<Rightarrow> None
      | Some (v, r) \<Rightarrow>
          (case dropWhile is_ws r of
             [] \<Rightarrow> None
           | d # ds \<Rightarrow>
               if d = CHR '','' then
                 (case parse_items n ds of None \<Rightarrow> None | Some (vs, r') \<Rightarrow> Some (v # vs, r'))
               else if d = CHR '']'' then Some ([v], ds)
               else None))"
| "parse_members 0 s = None"
| "parse_members (Suc n) s =
     (case dropWhile is_ws s of
        [] \<Rightarrow> None
      | q # cs \<Rightarrow>
          if q \<noteq> CHR 0x22 then None
          else (case parse_chars [] cs of
                  None \<Rightarrow> None
                | Some (k, r) \<Rightarrow>
                    (case dropWhile is_ws r of
                       [] \<Rightarrow> None
                     | col # r1 \<Rightarrow>
                         if col \<noteq> CHR '':'' then None
                         else (case parse_value n r1 of
                                 None \<Rightarrow> None
                               | Some (v, r2) \<Rightarrow>
                                   (case dropWhile is_ws r2 of
                                      [] \<Rightarrow> None
                                    | d # ds \<Rightarrow>
                                        if d = CHR '','' then
                                          (case parse_members n ds of
                                             None \<Rightarrow> None
                                           | Some (kvs, r3) \<Rightarrow> Some ((k, v) # kvs, r3))
                                        else if d = CHR ''}'' then Some ([(k, v)], ds)
                                        else None)))))"

text \<open>
  The whole text must be one JSON value; anything else is a decode error.
\<close>

definition decode :: "string \<Rightarrow> exn + pyval" where
  "decode s =
     (case parse_value (Suc (length s)) s of
        None \<Rightarrow> Inl JSONDecodeError
      | Some (v, r) \<Rightarrow> if dropWhile is_ws r = [] then Inr v else Inl JSONDecodeError)"

text \<open>
  The environment of the examples: every remote call succeeds, every embedding is the
  same vector, the store finds no match, and a text is one chunk (which is what the
  splitter returns for the short texts of the examples) unless it is empty.
\<close>

definition example_env :: env where
  "example_env = \<lparr>
     split_text = (\<lambda>t. if t = '''' then [] else [t]),
     json_dumps = encode,
     json_loads = decode,
     str_of = (\<lambda>v. case v of PStr s \<Rightarrow> s | _ \<Rightarrow> encode v),
     embeddings_create = (\<lambda>n t ty. Inr [1, 0]),
     index_upsert = (\<lambda>n vs. None),
     index_query = (\<lambda>n v k f. Inr []),
     chat_completions_create = (\<lambda>n p m. Inr ''ok'') \<rparr>"

definition empty_world :: world where
  "empty_world = \<lparr>index = [], calls = []\<rparr>"


text \<open>
  A document of two nodes, one without image path and one without page number; two nodes
  that yield no chunk; and runs of \<^verbatim>\<open>process_nodes_and_store\<close> over the document.
\<close>

definition two_nodes :: "node list" where
  "two_nodes = [\<lparr>content = Some ''alpha'', page_num = Some 3, image_path = None\<rparr>,
                \<lparr>content = Some ''beta'', page_num = None, image_path = Some ''img/p4.png''\<rparr>]"


definition first_run :: "(exn + unit) \<times> world" where
  "first_run = process_nodes_and_store example_env two_nodes ''doc'' empty_world"

definition second_run :: "(exn + unit) \<times> world" where
  "second_run = process_nodes_and_store example_env two_nodes ''doc'' (snd first_run)"

definition first_record :: vector where
  "first_record = hd (concat (batches (calls (snd first_run))))"

text \<open>
  An embedding service that times out at its \<open>k\<close>-th call, and runs in which it does.
\<close>

definition timeout_env :: "nat \<Rightarrow> env" where
  "timeout_env k = example_env\<lparr>embeddings_create :=
     (\<lambda>n t ty. if n = k then Inl (RemoteError ''timeout'') else Inr [1, 0])\<rparr>"

definition early_failure :: "(exn + unit) \<times> world" where
  "early_failure = process_nodes_and_store (timeout_env 0) two_nodes ''doc'' empty_world"

definition late_failure :: "(exn + unit) \<times> world" where
  "late_failure = process_nodes_and_store (timeout_env 2) two_nodes ''doc'' empty_world"

definition rerun_after_failure :: "(exn + unit) \<times> world" where
  "rerun_after_failure = process_nodes_and_store example_env two_nodes ''doc'' (snd late_failure)"

text \<open>
  A store that answers every query with the given matches, and three matches: one with
  the metadata that indexing wrote, one whose \<open>text\<close> is not JSON, one whose \<open>text\<close> is
  the JSON value \<open>null\<close>; and three searches, each over an answer of two of them.
\<close>

definition search_env :: "match list \<Rightarrow> env" where
  "search_env ms = example_env\<lparr>index_query := (\<lambda>n v k f. Inr ms)\<rparr>"

definition stored_match :: match where
  "stored_match = \<lparr>score = 0.9, metadata = chunk_metadata example_env ''doc'' 0 (hd two_nodes) 0 ''alpha''\<rparr>"

definition malformed_match :: match where
  "malformed_match = \<lparr>score = 0.5, metadata =
     [(''pdf_id'', PStr ''doc''), (''chunk_index'', PInt 7), (''node_index'', PInt 2),
      (''text'', PStr ''{bad'')]\<rparr>"

definition null_match :: match where
  "null_match = \<lparr>score = 0.25, metadata =
     [(''pdf_id'', PStr ''doc''), (''chunk_index'', PInt 1), (''node_index'', PInt 0),
      (''text'', PStr ''null'')]\<rparr>"

definition two_hits :: "(exn + pyval list) \<times> world" where
  "two_hits = search_similar (search_env [stored_match, malformed_match]) ''what is X?'' 5 None empty_world"

definition null_hit :: "(exn + pyval list) \<times> world" where
  "null_hit = search_similar (search_env [stored_match, null_match]) ''what is X?'' 5 None empty_world"

definition lost_hit :: "(exn + pyval list) \<times> world" where
  "lost_hit = search_similar (search_env [malformed_match, null_match]) ''what is X?'' 5 None empty_world"

text \<open>
  A text of 2400 characters without any separator.
\<close>

definition long_text :: string where
  "long_text = replicate 2400 (CHR ''a'')"

section \<open>Vector ids\<close>

lemma of_char_digit_char: "d < 10 \<Longrightarrow> (of_char (digit_char d) :: nat) = 48 + d"
  by (simp add: digit_char_def)

lemma is_digit_digit_char: "d < 10 \<Longrightarrow> is_digit (digit_char d)"
  by (simp add: is_digit_def of_char_digit_char)

lemma digits_value_str_nat: "digits_value (str_nat n) = n"
proof (induction n rule: str_nat.induct)
  case (1 n)
  show ?case
  proof (cases "n < 10")
    case True
    then show ?thesis
      by (subst str_nat.simps) (simp add: digits_value_def of_char_digit_char)
  next
    case False
    with 1 have "digits_value (str_nat (n div 10)) = n div 10" by simp
    with False show ?thesis
      by (subst str_nat.simps) (simp add: digits_value_def of_char_digit_char)
  qed
qed

lemma str_nat_inj: "str_nat m = str_nat n \<Longrightarrow> m = n"
  by (metis digits_value_str_nat)

lemma str_nat_digits: "c \<in> set (str_nat n) \<Longrightarrow> is_digit c"
proof (induction n rule: str_nat.induct)
  case (1 n)
  show ?case
  proof (cases "n < 10")
    case True
    with 1(2) show ?thesis
      by (subst (asm) str_nat.simps) (simp add: is_digit_digit_char)
  next
    case False
    with 1 show ?thesis
      by (subst (asm) (2) str_nat.simps) (auto simp: is_digit_digit_char)
  qed
qed

lemma takeWhile_stop:
  "\<forall>x\<in>set xs. P x \<Longrightarrow> \<not> P a \<Longrightarrow> takeWhile P (xs @ a # ys) = xs"
  by (induction xs) auto

lemma digit_suffix_unique:
  assumes eq: "xs @ a # ds = ys @ b # es"
    and ds: "\<forall>c\<in>set ds. is_digit c" and es: "\<forall>c\<in>set es. is_digit c"
    and a: "\<not> is_digit a" and b: "\<not> is_digit b"
  shows "xs = ys \<and> ds = es"
proof -
  from eq have "rev (xs @ a # ds) = rev (ys @ b # es)" by simp
  then have r: "rev ds @ a # rev xs = rev es @ b # rev ys" by simp
  have "takeWhile is_digit (rev ds @ a # rev xs) = rev ds"
    using ds a by (intro takeWhile_stop) auto
  moreover have "takeWhile is_digit (rev es @ b # rev ys) = rev es"
    using es b by (intro takeWhile_stop) auto
  ultimately have "rev ds = rev es" using r by simp
  then have "ds = es" by simp
  with eq show ?thesis by simp
qed

lemma vector_id_inj:
  assumes "vector_id p n c = vector_id p' n' c'"
  shows "p = p' \<and> n = n' \<and> c = c'"
proof -
  have k: "\<not> is_digit CHR ''k''" and e: "\<not> is_digit CHR ''e''"
    by (simp_all add: is_digit_def)
  from assms have
    "(p @ ''_node'' @ str_nat n @ ''_chun'') @ CHR ''k'' # str_nat c =
     (p' @ ''_node'' @ str_nat n' @ ''_chun'') @ CHR ''k'' # str_nat c'"
    by (simp add: vector_id_def)
  from digit_suffix_unique [OF this _ _ k k]
  have 1: "p @ ''_node'' @ str_nat n @ ''_chun'' = p' @ ''_node'' @ str_nat n' @ ''_chun''"
    and c: "str_nat c = str_nat c'"
    by (auto dest: str_nat_digits)
  from 1 have "(p @ ''_nod'') @ CHR ''e'' # str_nat n = (p' @ ''_nod'') @ CHR ''e'' # str_nat n'"
    by simp
  from digit_suffix_unique [OF this _ _ e e]
  have "p @ ''_nod'' = p' @ ''_nod''" and n: "str_nat n = str_nat n'"
    by (auto dest: str_nat_digits)
  then show ?thesis using c n by (auto dest: str_nat_inj)
qed

section \<open>The remote calls and the log\<close>

lemma written_append: "written (xs @ ys) = written xs @ written ys"
  by (induction xs rule: written.induct) auto

lemma batches_append: "batches (xs @ ys) = batches xs @ batches ys"
  by (induction xs rule: batches.induct) auto

lemma create_embedding_effect:
  "create_embedding E t ty w = (r, w1) \<Longrightarrow>
     calls w1 = calls w @ [EmbeddingsCreate t ty r] \<and> index w1 = index w"
  by (auto simp: create_embedding_def Let_def)

lemma upsert_effect_ok:
  "upsert E vs w = (None, w2) \<Longrightarrow>
     calls w2 = calls w @ [IndexUpsert vs None] \<and> index w2 = fold upsert_record vs (index w)"
  by (auto simp: upsert_def split: option.splits)

lemma upsert_effect_fail:
  "upsert E vs w = (Some e, w2) \<Longrightarrow>
     calls w2 = calls w @ [IndexUpsert vs (Some e)] \<and> index w2 = index w"
  by (auto simp: upsert_def split: option.splits)

lemma upsert_calls: "upsert E vs w = (u, w2) \<Longrightarrow> calls w2 = calls w @ [IndexUpsert vs u]"
  by (auto simp: upsert_def split: option.splits)

lemma news_ext:
  assumes "calls w = base @ news base w" and "calls w1 = calls w @ xs"
  shows "news base w1 = news base w @ xs" and "calls w1 = base @ news base w1"
proof -
  from assms have "calls w1 = base @ (news base w @ xs)" by simp
  then show "news base w1 = news base w @ xs" by (simp add: news_def)
  with assms show "calls w1 = base @ news base w1" by simp
qed

section \<open>The invariant is kept\<close>

lemma below_weaken:
  assumes "below pdf n c r" and "\<And>n' c'. n' < n \<or> (n' = n \<and> c' < c) \<Longrightarrow> n' < m \<or> (n' = m \<and> c' < d)"
  shows "below pdf m d r"
proof -
  from assms(1) obtain n' c' where id: "fst r = vector_id pdf n' c'"
    and lt: "n' < n \<or> (n' = n \<and> c' < c)"
    unfolding below_def by blast
  from assms(2) [OF lt] id show ?thesis unfolding below_def by blast
qed

lemma below_Suc: "below pdf n c r \<Longrightarrow> below pdf n (Suc c) r"
  by (erule below_weaken) auto

lemma below_next_node: "below pdf n c r \<Longrightarrow> below pdf (Suc n) 0 r"
  by (erule below_weaken) auto

lemma below_not_current: "below pdf n c r \<Longrightarrow> fst r \<noteq> vector_id pdf n c"
  by (auto simp: below_def dest: vector_id_inj)

lemma below_current: "fst r = vector_id pdf n c \<Longrightarrow> below pdf n (Suc c) r"
  unfolding below_def by (intro exI [of _ n] exI [of _ c]) simp

lemma consistent_insert:
  "consistent S \<Longrightarrow> \<forall>r\<in>S. fst r \<noteq> fst x \<Longrightarrow> consistent (insert x S)"
  unfolding consistent_def by auto

lemma consistent_subset: "consistent S \<Longrightarrow> T \<subseteq> S \<Longrightarrow> consistent T"
  unfolding consistent_def by blast

lemma good_embed:
  assumes g: "good pdf base ix0 n c I vectors w"
    and ce: "create_embedding E t ty w = (Inr v, w1)"
  shows "good pdf base ix0 n (Suc c) (insert (vector_id pdf n c) I)
           (vectors @ [(vector_id pdf n c, v, md)]) w1"
proof -
  let ?x = "(vector_id pdf n c, v, md)"
  let ?S = "set vectors \<union> set (written (news base w))"
  from create_embedding_effect [OF ce]
  have c1: "calls w1 = calls w @ [EmbeddingsCreate t ty (Inr v)]" and i1: "index w1 = index w"
    by simp_all
  from g have cw: "calls w = base @ news base w" by (simp add: good_def)
  from news_ext [OF cw c1]
  have n1: "news base w1 = news base w @ [EmbeddingsCreate t ty (Inr v)]"
    and b1: "calls w1 = base @ news base w1" .
  have wr: "written (news base w1) = written (news base w)"
    by (simp add: n1 written_append)
  have S1: "set (vectors @ [?x]) \<union> set (written (news base w1)) = insert ?x ?S"
    by (auto simp: wr)
  from g have cons: "consistent ?S" and bel: "\<forall>r\<in>?S. below pdf n c r"
    and I: "fst ` ?S = I"
    by (simp_all add: good_def)
  have "consistent (insert ?x ?S)"
    using cons bel by (intro consistent_insert) (auto dest: below_not_current)
  moreover have "\<forall>r\<in>insert ?x ?S. below pdf n (Suc c) r"
    using bel by (auto intro: below_Suc below_current)
  moreover have "fst ` insert ?x ?S = insert (vector_id pdf n c) I"
    using I by auto
  moreover have "\<forall>cl\<in>set (news base w1). call_error cl = None"
    using g by (auto simp: n1 good_def)
  moreover have "index w1 = fold upsert_record (written (news base w1)) ix0"
    using g by (simp add: wr i1 good_def)
  ultimately show ?thesis
    unfolding good_def [of pdf base ix0 n "Suc c"] S1 using b1 by blast
qed

lemma good_embed_fail:
  assumes g: "good pdf base ix0 n c I vectors w"
    and ce: "create_embedding E t ty w = (Inl e, w1)"
  shows "failed base ix0 I e w1"
proof -
  from create_embedding_effect [OF ce]
  have c1: "calls w1 = calls w @ [EmbeddingsCreate t ty (Inl e)]" and i1: "index w1 = index w"
    by simp_all
  from g have cw: "calls w = base @ news base w" by (simp add: good_def)
  from news_ext [OF cw c1]
  have n1: "news base w1 = news base w @ [EmbeddingsCreate t ty (Inl e)]"
    and b1: "calls w1 = base @ news base w1" .
  have wr: "written (news base w1) = written (news base w)"
    by (simp add: n1 written_append)
  have "\<exists>pre cl. news base w1 = pre @ [cl] \<and> (\<forall>c\<in>set pre. call_error c = None) \<and> call_error cl = Some e"
    using g n1 by (intro exI [of _ "news base w"] exI [of _ "EmbeddingsCreate t ty (Inl e)"])
      (simp add: good_def)
  moreover have "consistent (set (written (news base w1)))"
    using g unfolding wr good_def by (auto elim: consistent_subset)
  moreover have "fst ` set (written (news base w1)) \<subseteq> I"
    using g unfolding wr good_def by auto
  moreover have "index w1 = fold upsert_record (written (news base w1)) ix0"
    using g by (simp add: wr i1 good_def)
  ultimately show ?thesis unfolding failed_def using b1 by blast
qed

lemma good_upsert:
  assumes g: "good pdf base ix0 n c I vectors w"
    and up: "upsert E vectors w = (None, w2)"
    and sub: "set vs' \<subseteq> set vectors"
  shows "good pdf base ix0 n c I vs' w2"
proof -
  from upsert_effect_ok [OF up]
  have c1: "calls w2 = calls w @ [IndexUpsert vectors None]"
    and i1: "index w2 = fold upsert_record vectors (index w)"
    by simp_all
  from g have cw: "calls w = base @ news base w" by (simp add: good_def)
  from news_ext [OF cw c1]
  have n1: "news base w2 = news base w @ [IndexUpsert vectors None]"
    and b1: "calls w2 = base @ news base w2" .
  have wr: "written (news base w2) = written (news base w) @ vectors"
    by (simp add: n1 written_append)
  have S1: "set vs' \<union> set (written (news base w2)) = set vectors \<union> set (written (news base w))"
    using sub by (auto simp: wr)
  have "\<forall>cl\<in>set (news base w2). call_error cl = None"
    using g by (auto simp: n1 good_def)
  moreover have "index w2 = fold upsert_record (written (news base w2)) ix0"
    using g by (simp add: wr i1 good_def)
  ultimately show ?thesis
    using g b1 unfolding good_def S1 by blast
qed

lemma good_upsert_fail:
  assumes g: "good pdf base ix0 n c I vectors w"
    and up: "upsert E vectors w = (Some e, w2)"
  shows "failed base ix0 I e w2"
proof -
  from upsert_effect_fail [OF up]
  have c1: "calls w2 = calls w @ [IndexUpsert vectors (Some e)]" and i1: "index w2 = index w"
    by simp_all
  from g have cw: "calls w = base @ news base w" by (simp add: good_def)
  from news_ext [OF cw c1]
  have n1: "news base w2 = news base w @ [IndexUpsert vectors (Some e)]"
    and b1: "calls w2 = base @ news base w2" .
  have wr: "written (news base w2) = written (news base w)"
    by (simp add: n1 written_append)
  have "\<exists>pre cl. news base w2 = pre @ [cl] \<and> (\<forall>c\<in>set pre. call_error c = None) \<and> call_error cl = Some e"
    using g n1 by (intro exI [of _ "news base w"] exI [of _ "IndexUpsert vectors (Some e)"])
      (simp add: good_def)
  moreover have "consistent (set (written (news base w2)))"
    using g unfolding wr good_def by (auto elim: consistent_subset)
  moreover have "fst ` set (written (news base w2)) \<subseteq> I"
    using g unfolding wr good_def by auto
  moreover have "index w2 = fold upsert_record (written (news base w2)) ix0"
    using g by (simp add: wr i1 good_def)
  ultimately show ?thesis unfolding failed_def using b1 by blast
qed

lemma failed_mono: "failed base ix0 I e w \<Longrightarrow> I \<subseteq> J \<Longrightarrow> failed base ix0 J e w"
  unfolding failed_def by blast

lemma good_next_node: "good pdf base ix0 n c I vectors w \<Longrightarrow> good pdf base ix0 (Suc n) 0 I vectors w"
  unfolding good_def by (blast intro: below_next_node)

lemma chunk_loop_good:
  "good pdf base ix0 n c I vectors w \<Longrightarrow>
   chunk_loop E pdf n nd c chunks vectors w = (Inr vs', w') \<Longrightarrow>
   good pdf base ix0 n (c + length chunks) (I \<union> set (chunk_ids pdf n c chunks)) vs' w'"
proof (induction chunks arbitrary: c I vectors w)
  case Nil
  then show ?case by simp
next
  case (Cons chunk chunks)
  obtain r w1 where ce: "create_embedding E chunk ''passage'' w = (r, w1)"
    by (cases "create_embedding E chunk ''passage'' w")
  with Cons.prems(2) obtain v where r: "r = Inr v"
    by (cases r) auto
  let ?x = "(vector_id pdf n c, v, chunk_metadata E pdf n nd c chunk)"
  let ?vs1 = "vectors @ [?x]"
  let ?I1 = "insert (vector_id pdf n c) I"
  have g1: "good pdf base ix0 n (Suc c) ?I1 ?vs1 w1"
    using good_embed [OF Cons.prems(1)] ce r by simp
  have I: "?I1 \<union> set (chunk_ids pdf n (Suc c) chunks) = I \<union> set (chunk_ids pdf n c (chunk # chunks))"
    by simp
  show ?case
  proof (cases "50 \<le> length ?vs1")
    case True
    obtain u w2 where up: "upsert E ?vs1 w1 = (u, w2)"
      by (cases "upsert E ?vs1 w1")
    with Cons.prems(2) ce r True have u: "u = None"
      by (cases u) (auto simp: Let_def)
    with Cons.prems(2) ce r True up
    have rec: "chunk_loop E pdf n nd (Suc c) chunks [] w2 = (Inr vs', w')"
      by (auto simp: Let_def)
    have "good pdf base ix0 n (Suc c) ?I1 [] w2"
      using good_upsert [OF g1] up u by simp
    from Cons.IH [OF this rec] show ?thesis
      unfolding I by simp
  next
    case False
    with Cons.prems(2) ce r
    have rec: "chunk_loop E pdf n nd (Suc c) chunks ?vs1 w1 = (Inr vs', w')"
      by (auto simp: Let_def)
    from Cons.IH [OF g1 rec] show ?thesis
      unfolding I by simp
  qed
qed

lemma chunk_loop_failed:
  "good pdf base ix0 n c I vectors w \<Longrightarrow>
   chunk_loop E pdf n nd c chunks vectors w = (Inl e, w') \<Longrightarrow>
   failed base ix0 (I \<union> set (chunk_ids pdf n c chunks)) e w'"
proof (induction chunks arbitrary: c I vectors w)
  case Nil
  then show ?case by simp
next
  case (Cons chunk chunks)
  obtain r w1 where ce: "create_embedding E chunk ''passage'' w = (r, w1)"
    by (cases "create_embedding E chunk ''passage'' w")
  show ?case
  proof (cases r)
    case (Inl e1)
    with Cons.prems(2) ce have "e1 = e" "w1 = w'" by auto
    with good_embed_fail [OF Cons.prems(1)] ce Inl
    have "failed base ix0 I e w'" by simp
    then show ?thesis by (rule failed_mono) auto
  next
    case (Inr v)
    let ?x = "(vector_id pdf n c, v, chunk_metadata E pdf n nd c chunk)"
    let ?vs1 = "vectors @ [?x]"
    let ?I1 = "insert (vector_id pdf n c) I"
    have g1: "good pdf base ix0 n (Suc c) ?I1 ?vs1 w1"
      using good_embed [OF Cons.prems(1)] ce Inr by simp
    have I: "?I1 \<union> set (chunk_ids pdf n (Suc c) chunks) = I \<union> set (chunk_ids pdf n c (chunk # chunks))"
      by simp
    show ?thesis
    proof (cases "50 \<le> length ?vs1")
      case True
      obtain u w2 where up: "upsert E ?vs1 w1 = (u, w2)"
        by (cases "upsert E ?vs1 w1")
      show ?thesis
      proof (cases u)
        case None
        with Cons.prems(2) ce Inr True up
        have rec: "chunk_loop E pdf n nd (Suc c) chunks [] w2 = (Inl e, w')"
          by (auto simp: Let_def)
        have "good pdf base ix0 n (Suc c) ?I1 [] w2"
          using good_upsert [OF g1] up None by simp
        from Cons.IH [OF this rec] show ?thesis
          unfolding I .
      next
        case (Some e2)
        with Cons.prems(2) ce Inr True up have "e2 = e" "w2 = w'"
          by (auto simp: Let_def)
        with good_upsert_fail [OF g1] up Some
        have "failed base ix0 ?I1 e w'" by simp
        then show ?thesis by (rule failed_mono) auto
      qed
    next
      case False
      with Cons.prems(2) ce Inr
      have rec: "chunk_loop E pdf n nd (Suc c) chunks ?vs1 w1 = (Inl e, w')"
        by (auto simp: Let_def)
      from Cons.IH [OF g1 rec] show ?thesis
        unfolding I .
    qed
  qed
qed

lemma good_upsert_written:
  assumes g: "good pdf base ix0 n c I vectors w"
    and up: "upsert E vectors w = (None, w2)"
  shows "set vectors \<subseteq> set (written (news base w2))"
proof -
  from upsert_effect_ok [OF up]
  have c1: "calls w2 = calls w @ [IndexUpsert vectors None]" by simp
  from g have cw: "calls w = base @ news base w" by (simp add: good_def)
  from news_ext(1) [OF cw c1] show ?thesis
    by (simp add: written_append)
qed

lemma node_loop_good:
  "good pdf base ix0 n 0 I vectors w \<Longrightarrow> set vectors \<subseteq> set (written (news base w)) \<Longrightarrow>
   node_loop E pdf n nodes vectors w = (Inr vs', w') \<Longrightarrow>
   (\<exists>n' c'. good pdf base ix0 n' c' (I \<union> set (node_ids E pdf n nodes)) vs' w') \<and>
   set vs' \<subseteq> set (written (news base w'))"
proof (induction nodes arbitrary: n I vectors w)
  case Nil
  then show ?case by auto
next
  case (Cons nd nodes)
  let ?chunks = "split_text E (get_content nd)"
  let ?I1 = "I \<union> set (chunk_ids pdf n 0 ?chunks)"
  obtain r w1 where cl: "chunk_loop E pdf n nd 0 ?chunks vectors w = (r, w1)"
    by (cases "chunk_loop E pdf n nd 0 ?chunks vectors w")
  with Cons.prems(3) obtain vectors1 where r: "r = Inr vectors1"
    by (cases r) (auto simp: Let_def)
  have g1: "good pdf base ix0 n (0 + length ?chunks) ?I1 vectors1 w1"
    using chunk_loop_good [OF Cons.prems(1)] cl r by simp
  have I: "?I1 \<union> set (node_ids E pdf (Suc n) nodes) = I \<union> set (node_ids E pdf n (nd # nodes))"
    by auto
  show ?case
  proof (cases "vectors1 = []")
    case True
    with Cons.prems(3) cl r
    have rec: "node_loop E pdf (Suc n) nodes vectors1 w1 = (Inr vs', w')"
      by (auto simp: Let_def)
    from Cons.IH [OF good_next_node [OF g1] _ rec] True show ?thesis
      unfolding I by simp
  next
    case False
    obtain u w2 where up: "upsert E vectors1 w1 = (u, w2)"
      by (cases "upsert E vectors1 w1")
    with Cons.prems(3) cl r False have u: "u = None"
      by (cases u) (auto simp: Let_def)
    with Cons.prems(3) cl r False up
    have rec: "node_loop E pdf (Suc n) nodes vectors1 w2 = (Inr vs', w')"
      by (auto simp: Let_def)
    have g2: "good pdf base ix0 n (0 + length ?chunks) ?I1 vectors1 w2"
      using good_upsert [OF g1] up u by simp
    have fl: "set vectors1 \<subseteq> set (written (news base w2))"
      using good_upsert_written [OF g1] up u by simp
    from Cons.IH [OF good_next_node [OF g2] fl rec] show ?thesis
      unfolding I .
  qed
qed

lemma node_loop_failed:
  "good pdf base ix0 n 0 I vectors w \<Longrightarrow>
   node_loop E pdf n nodes vectors w = (Inl e, w') \<Longrightarrow>
   failed base ix0 (I \<union> set (node_ids E pdf n nodes)) e w'"
proof (induction nodes arbitrary: n I vectors w)
  case Nil
  then show ?case by auto
next
  case (Cons nd nodes)
  let ?chunks = "split_text E (get_content nd)"
  let ?I1 = "I \<union> set (chunk_ids pdf n 0 ?chunks)"
  have I: "?I1 \<union> set (node_ids E pdf (Suc n) nodes) = I \<union> set (node_ids E pdf n (nd # nodes))"
    by auto
  obtain r w1 where cl: "chunk_loop E pdf n nd 0 ?chunks vectors w = (r, w1)"
    by (cases "chunk_loop E pdf n nd 0 ?chunks vectors w")
  show ?case
  proof (cases r)
    case (Inl e1)
    with Cons.prems(2) cl have "e1 = e" "w1 = w'" by (auto simp: Let_def)
    with chunk_loop_failed [OF Cons.prems(1)] cl Inl
    have "failed base ix0 ?I1 e w'" by simp
    then show ?thesis by (rule failed_mono) auto
  next
    case (Inr vectors1)
    have g1: "good pdf base ix0 n (0 + length ?chunks) ?I1 vectors1 w1"
      using chunk_loop_good [OF Cons.prems(1)] cl Inr by simp
    show ?thesis
    proof (cases "vectors1 = []")
      case True
      with Cons.prems(2) cl Inr
      have rec: "node_loop E pdf (Suc n) nodes vectors1 w1 = (Inl e, w')"
        by (auto simp: Let_def)
      from Cons.IH [OF good_next_node [OF g1] rec] show ?thesis
        unfolding I .
    next
      case False
      obtain u w2 where up: "upsert E vectors1 w1 = (u, w2)"
        by (cases "upsert E vectors1 w1")
      show ?thesis
      proof (cases u)
        case None
        with Cons.prems(2) cl Inr False up
        have rec: "node_loop E pdf (Suc n) nodes vectors1 w2 = (Inl e, w')"
          by (auto simp: Let_def)
        have g2: "good pdf base ix0 n (0 + length ?chunks) ?I1 vectors1 w2"
          using good_upsert [OF g1] up None by simp
        from Cons.IH [OF good_next_node [OF g2] rec] show ?thesis
          unfolding I .
      next
        case (Some e2)
        with Cons.prems(2) cl Inr False up have "e2 = e" "w2 = w'"
          by (auto simp: Let_def)
        with good_upsert_fail [OF g1] up Some
        have "failed base ix0 ?I1 e w'" by simp
        then show ?thesis by (rule failed_mono) auto
      qed
    qed
  qed
qed

lemma good_start: "good pdf (calls w) (index w) 0 0 {} [] w"
  by (simp add: good_def news_def consistent_def)

lemma map_of_upsert_record:
  "map_of (upsert_record x ix) k = (if k = fst x then Some (snd x) else map_of ix k)"
  by (simp add: upsert_record_def update_conv')

lemma fold_upsert_lookup:
  "consistent (set rs) \<Longrightarrow> r \<in> set rs \<Longrightarrow> map_of (fold upsert_record rs ix) (fst r) = Some (snd r)"
proof (induction rs arbitrary: r rule: rev_induct)
  case Nil
  then show ?case by simp
next
  case (snoc x rs)
  show ?case
  proof (cases "fst r = fst x")
    case True
    with snoc.prems have "r = x" by (auto simp: consistent_def)
    then show ?thesis by (simp add: map_of_upsert_record)
  next
    case False
    with snoc.prems have "r \<in> set rs" by auto
    moreover from snoc.prems(1) have "consistent (set rs)"
      by (rule consistent_subset) auto
    ultimately show ?thesis using snoc.IH False by (simp add: map_of_upsert_record)
  qed
qed

lemma keys_fold_upsert:
  "fst ` set (fold upsert_record rs ix) = fst ` set ix \<union> fst ` set rs"
  by (induction rs arbitrary: ix) (auto simp: upsert_record_def dom_update)

lemma map_fst_fold_upsert:
  "fst ` set rs \<subseteq> fst ` set ix \<Longrightarrow> map fst (fold upsert_record rs ix) = map fst ix"
proof (induction rs arbitrary: ix)
  case Nil
  then show ?case by simp
next
  case (Cons r rs)
  have k: "map fst (upsert_record r ix) = map fst ix"
    using Cons.prems by (auto simp: upsert_record_def update_keys)
  then have "fst ` set (upsert_record r ix) = fst ` set ix"
    by (metis list.set_map)
  with Cons.prems have "fst ` set rs \<subseteq> fst ` set (upsert_record r ix)" by auto
  from Cons.IH [OF this] k show ?case by simp
qed

lemma distinct_fold_upsert:
  "distinct (map fst ix) \<Longrightarrow> distinct (map fst (fold upsert_record rs ix))"
  by (induction rs arbitrary: ix) (simp_all add: upsert_record_def distinct_update)

lemma upserted_in_written: "IndexUpsert vs None \<in> set cs \<Longrightarrow> set vs \<subseteq> set (written cs)"
  by (induction cs rule: written.induct) auto

lemma node_ids_cong: "split_text E' = split_text E \<Longrightarrow> node_ids E' pdf n nodes = node_ids E pdf n nodes"
  by (induction nodes arbitrary: n) simp_all

lemma process_ok:
  assumes "process_nodes_and_store E nodes pdf w = (Inr (), w')"
  shows "\<exists>n c vs. good pdf (calls w) (index w) n c (set (node_ids E pdf 0 nodes)) vs w' \<and>
           set vs \<subseteq> set (written (news (calls w) w'))"
proof -
  from assms obtain vs where nl: "node_loop E pdf 0 nodes [] w = (Inr vs, w')"
    by (auto simp: process_nodes_and_store_def split: prod.splits sum.splits)
  from node_loop_good [OF good_start _ nl] show ?thesis by auto
qed

lemma process_failed:
  assumes "process_nodes_and_store E nodes pdf w = (Inl e, w')"
  shows "failed (calls w) (index w) (set (node_ids E pdf 0 nodes)) e w'"
proof -
  from assms have nl: "node_loop E pdf 0 nodes [] w = (Inl e, w')"
    by (auto simp: process_nodes_and_store_def split: prod.splits sum.splits)
  from node_loop_failed [OF good_start nl] show ?thesis by simp
qed

text \<open>What a run leaves in the index, whether it succeeds or fails.\<close>

lemma process_index:
  assumes "process_nodes_and_store E nodes pdf w = (res, w')"
  shows "index w' = fold upsert_record (written (news (calls w) w')) (index w) \<and>
         fst ` set (written (news (calls w) w')) \<subseteq> set (node_ids E pdf 0 nodes) \<and>
         consistent (set (written (news (calls w) w'))) \<and>
         calls w' = calls w @ news (calls w) w'"
proof (cases res)
  case (Inl e)
  with process_failed assms show ?thesis unfolding failed_def by blast
next
  case (Inr u)
  with process_ok [of E nodes pdf w w'] assms
  obtain n c vs where g: "good pdf (calls w) (index w) n c (set (node_ids E pdf 0 nodes)) vs w'"
    by auto
  then show ?thesis unfolding good_def
    by (auto elim: consistent_subset)
qed

lemma process_ok_keys:
  assumes "process_nodes_and_store E nodes pdf w = (Inr (), w')"
  shows "fst ` set (index w') = fst ` set (index w) \<union> set (node_ids E pdf 0 nodes)"
proof -
  from process_ok [OF assms]
  obtain n c vs where g: "good pdf (calls w) (index w) n c (set (node_ids E pdf 0 nodes)) vs w'"
    and sub: "set vs \<subseteq> set (written (news (calls w) w'))"
    by auto
  from sub have "set vs \<union> set (written (news (calls w) w')) = set (written (news (calls w) w'))"
    by auto
  with g have "fst ` set (written (news (calls w) w')) = set (node_ids E pdf 0 nodes)"
    and "index w' = fold upsert_record (written (news (calls w) w')) (index w)"
    by (simp_all add: good_def)
  then show ?thesis by (simp add: keys_fold_upsert)
qed

section \<open>Nodes without chunks\<close>




section \<open>The id scheme and re-indexing\<close>

lemma reindex_same_ids:
  assumes r1: "process_nodes_and_store E nodes pdf w = (Inr (), w1)"
    and sp: "split_text E' = split_text E"
    and r2: "process_nodes_and_store E' nodes pdf w1 = (res, w2)"
  shows "map fst (index w2) = map fst (index w1)"
proof -
  from process_index [OF r2]
  have ix: "index w2 = fold upsert_record (written (news (calls w1) w2)) (index w1)"
    and sub: "fst ` set (written (news (calls w1) w2)) \<subseteq> set (node_ids E' pdf 0 nodes)"
    by simp_all
  from process_ok_keys [OF r1] have "set (node_ids E pdf 0 nodes) \<subseteq> fst ` set (index w1)"
    by simp
  with sub node_ids_cong [OF sp] have "fst ` set (written (news (calls w1) w2)) \<subseteq> fst ` set (index w1)"
    by simp
  from map_fst_fold_upsert [OF this] ix show ?thesis by simp
qed

lemma upsert_record_twice:
  "fst r' = fst r \<Longrightarrow> map fst (upsert_record r' (upsert_record r ix)) = map fst (upsert_record r ix)"
  by (simp add: upsert_record_def update_keys)

text \<open>
  Claim C5. The vector id is a function of the document id and the two indices, and the
  function is injective: two ids are equal only when the three components are, whatever
  the document id contains (the indices are written in decimal digits, and the letters
  before them are not digits, so an id is read back from its end). A record written twice
  under one id is one record of the index. And indexing a document again, after a run that
  succeeded, leaves the ids of the index, and so the number of its records, as they were,
  whether the second run succeeds or not.
\<close>

theorem vector_id_scheme:
  "(vector_id p n c = vector_id p' n' c' \<longleftrightarrow> p = p' \<and> n = n' \<and> c = c') \<and>
   map fst (upsert_record (vector_id p n c, v', m') (upsert_record (vector_id p n c, v, m) ix)) =
     map fst (upsert_record (vector_id p n c, v, m) ix) \<and>
   (process_nodes_and_store E nodes pdf_id w = (Inr (), w1) \<and> split_text E' = split_text E \<and>
    process_nodes_and_store E' nodes pdf_id w1 = (res, w2) \<longrightarrow>
      map fst (index w2) = map fst (index w1) \<and> length (index w2) = length (index w1))"
proof (intro conjI impI)
  show "vector_id p n c = vector_id p' n' c' \<longleftrightarrow> p = p' \<and> n = n' \<and> c = c'"
    using vector_id_inj by blast
  show "map fst (upsert_record (vector_id p n c, v', m') (upsert_record (vector_id p n c, v, m) ix)) =
     map fst (upsert_record (vector_id p n c, v, m) ix)"
    by (rule upsert_record_twice) simp
next
  assume a: "process_nodes_and_store E nodes pdf_id w = (Inr (), w1) \<and> split_text E' = split_text E \<and>
    process_nodes_and_store E' nodes pdf_id w1 = (res, w2)"
  then show m: "map fst (index w2) = map fst (index w1)"
    using reindex_same_ids by blast
  then show "length (index w2) = length (index w1)"
    by (metis length_map)
qed

theorem vector_id_scheme_witness:
  "vector_id ''a_node1'' 2 3 \<noteq> vector_id ''a'' 1 3 \<and>
   map fst (upsert_record (vector_id ''a_node1'' 2 3, [0, 1], [])
     (upsert_record (vector_id ''a_node1'' 2 3, [1, 0], []) [])) = [''a_node1_node2_chunk3''] \<and>
   fst first_run = Inr () \<and>
   map fst (index (snd first_run)) = [''doc_node0_chunk0'', ''doc_node1_chunk0''] \<and>
   map fst (index (snd second_run)) = [''doc_node0_chunk0'', ''doc_node1_chunk0''] \<and>
   length (index (snd second_run)) = 2"
proof -
  have f: "fst first_run = Inr ()"
    unfolding first_run_def by code_simp
  have i1: "map fst (index (snd first_run)) = [''doc_node0_chunk0'', ''doc_node1_chunk0'']"
    unfolding first_run_def by code_simp
  have l1: "length (index (snd first_run)) = 2"
    unfolding first_run_def by code_simp
  have u: "map fst (upsert_record (vector_id ''a_node1'' 2 3, [1, 0], []) []) = [''a_node1_node2_chunk3'']"
    by code_simp
  have r1: "process_nodes_and_store example_env two_nodes ''doc'' empty_world = (Inr (), snd first_run)"
    using f by (simp add: first_run_def prod_eq_iff)
  have r2: "process_nodes_and_store example_env two_nodes ''doc'' (snd first_run) = (fst second_run, snd second_run)"
    by (simp add: second_run_def)
  from vector_id_scheme [of "''a_node1''" 2 3 "''a''" 1 3 "[0, 1]" "[]" "[1, 0]" "[]" "[]"
      example_env two_nodes "''doc''" empty_world "snd first_run" example_env "fst second_run" "snd second_run"]
    r1 r2 f i1 l1 u
  show ?thesis by simp
qed

section \<open>A failed indexing run\<close>

lemma failed_run_log:
  assumes run: "process_nodes_and_store E nodes pdf_id w = (Inl e, w')"
  shows "\<exists>pre cl. calls w' = calls w @ pre @ [cl] \<and>
            (\<forall>c\<in>set pre. call_error c = None) \<and> call_error cl = Some e \<and>
            (\<forall>vs r. IndexUpsert vs None \<in> set pre \<and> r \<in> set vs \<longrightarrow>
               map_of (index w') (fst r) = Some (snd r))"
proof -
  let ?new = "news (calls w) w'"
  from process_failed [OF run]
  have cw: "calls w' = calls w @ ?new"
    and ix: "index w' = fold upsert_record (written ?new) (index w)"
    and cons: "consistent (set (written ?new))"
    by (simp_all add: failed_def)
  from process_failed [OF run]
  obtain pre cl where new: "?new = pre @ [cl]"
    and pre: "\<forall>c\<in>set pre. call_error c = None" and cl: "call_error cl = Some e"
    unfolding failed_def by blast
  have kept: "map_of (index w') (fst r) = Some (snd r)"
    if "IndexUpsert vs None \<in> set pre \<and> r \<in> set vs" for vs r
  proof -
    from that new have "IndexUpsert vs None \<in> set ?new" by simp
    from upserted_in_written [OF this] that have "r \<in> set (written ?new)" by auto
    from fold_upsert_lookup [OF cons this] ix show ?thesis by simp
  qed
  show ?thesis
  proof (intro exI [of _ pre] exI [of _ cl] conjI)
    show "calls w' = calls w @ pre @ [cl]" using cw new by simp
    show "\<forall>c\<in>set pre. call_error c = None" by (rule pre)
    show "call_error cl = Some e" by (rule cl)
    show "\<forall>vs r. IndexUpsert vs None \<in> set pre \<and> r \<in> set vs \<longrightarrow>
               map_of (index w') (fst r) = Some (snd r)"
      using kept by blast
  qed
qed

lemma run_keeps_ids:
  assumes run: "process_nodes_and_store E nodes pdf_id w = (res, w')"
  shows "fst ` set (index w) \<subseteq> fst ` set (index w')"
    and "fst ` set (index w') \<subseteq> fst ` set (index w) \<union> set (node_ids E pdf_id 0 nodes)"
    and "distinct (map fst (index w)) \<Longrightarrow> distinct (map fst (index w'))"
proof -
  let ?new = "news (calls w) w'"
  from process_index [OF run]
  have ix: "index w' = fold upsert_record (written ?new) (index w)"
    and ids: "fst ` set (written ?new) \<subseteq> set (node_ids E pdf_id 0 nodes)"
    by simp_all
  have k: "fst ` set (index w') = fst ` set (index w) \<union> fst ` set (written ?new)"
    by (simp only: ix keys_fold_upsert)
  show "fst ` set (index w) \<subseteq> fst ` set (index w')"
    unfolding k by (rule Un_upper1)
  show "fst ` set (index w') \<subseteq> fst ` set (index w) \<union> set (node_ids E pdf_id 0 nodes)"
    unfolding k using ids by blast
  show "distinct (map fst (index w')) " if "distinct (map fst (index w))"
    using that by (simp only: ix distinct_fold_upsert)
qed

lemma Un_sandwich: "A \<subseteq> B \<Longrightarrow> B \<subseteq> A \<union> N \<Longrightarrow> B \<union> N = A \<union> N"
  by blast

lemma rerun_ids:
  assumes run: "process_nodes_and_store E nodes pdf_id w = (res, w')"
    and sp: "split_text E' = split_text E"
    and rerun: "process_nodes_and_store E' nodes pdf_id w' = (Inr (), w'')"
  shows "fst ` set (index w'') = fst ` set (index w) \<union> set (node_ids E pdf_id 0 nodes)"
proof -
  have n: "node_ids E' pdf_id 0 nodes = node_ids E pdf_id 0 nodes"
    using sp by (rule node_ids_cong)
  have "fst ` set (index w'') = fst ` set (index w') \<union> set (node_ids E pdf_id 0 nodes)"
    using process_ok_keys [OF rerun] by (simp only: n)
  also have "fst ` set (index w') \<union> set (node_ids E pdf_id 0 nodes) =
      fst ` set (index w) \<union> set (node_ids E pdf_id 0 nodes)"
    using run_keeps_ids(1,2) [OF run] by (rule Un_sandwich)
  finally show ?thesis .
qed

text \<open>
  Claim C4, as stated, fails in one point: the exception that reaches the caller is the
  one the remote call raised, with nothing added. Two runs over the same nodes, one whose
  first embedding call times out (node 0, chunk 0) and one whose third call does (node 1,
  chunk 0), surface the same exception; the logs show where each stopped, the exception
  does not.
\<close>

theorem indexing_failure_no_context_counterexample:
  "fst early_failure = Inl (RemoteError ''timeout'') \<and>
   fst late_failure = Inl (RemoteError ''timeout'') \<and>
   embedded (calls (snd early_failure)) = [''alpha''] \<and>
   embedded (calls (snd late_failure)) = [''alpha'', ''beta''] \<and>
   map call_error (calls (snd early_failure)) = [Some (RemoteError ''timeout'')] \<and>
   map call_error (calls (snd late_failure)) = [None, None, Some (RemoteError ''timeout'')]"
  unfolding early_failure_def late_failure_def by code_simp

text \<open>
  Claim C4, amended. A run in which a remote call fails stops at that call: the log of
  the run is a sequence of calls that succeeded followed by the failed call, nothing comes
  after it, and the exception returned is the one of that call, unchanged. Every record
  of every batch upserted before the failure is in the index afterwards, as it was
  written, and no id that was in the index before the run is lost. Indexing the document
  again is safe: when the second run succeeds, the index holds the ids it held before the
  first run and the ids of the document, each once if they were so before.
\<close>

theorem indexing_failure_aborts:
  assumes run: "process_nodes_and_store E nodes pdf_id w = (Inl e, w')"
  shows "(\<exists>pre cl. calls w' = calls w @ pre @ [cl] \<and>
            (\<forall>c\<in>set pre. call_error c = None) \<and> call_error cl = Some e \<and>
            (\<forall>vs r. IndexUpsert vs None \<in> set pre \<and> r \<in> set vs \<longrightarrow>
               map_of (index w') (fst r) = Some (snd r))) \<and>
         fst ` set (index w) \<subseteq> fst ` set (index w') \<and>
         (split_text E' = split_text E \<and>
          process_nodes_and_store E' nodes pdf_id w' = (Inr (), w'') \<longrightarrow>
            fst ` set (index w'') = fst ` set (index w) \<union> set (node_ids E pdf_id 0 nodes) \<and>
            (distinct (map fst (index w)) \<longrightarrow> distinct (map fst (index w''))))"
proof (intro conjI)
  show "\<exists>pre cl. calls w' = calls w @ pre @ [cl] \<and>
            (\<forall>c\<in>set pre. call_error c = None) \<and> call_error cl = Some e \<and>
            (\<forall>vs r. IndexUpsert vs None \<in> set pre \<and> r \<in> set vs \<longrightarrow>
               map_of (index w') (fst r) = Some (snd r))"
    using run by (rule failed_run_log)
  show "fst ` set (index w) \<subseteq> fst ` set (index w')"
    using run by (rule run_keeps_ids(1))
  show "split_text E' = split_text E \<and>
          process_nodes_and_store E' nodes pdf_id w' = (Inr (), w'') \<longrightarrow>
            fst ` set (index w'') = fst ` set (index w) \<union> set (node_ids E pdf_id 0 nodes) \<and>
            (distinct (map fst (index w)) \<longrightarrow> distinct (map fst (index w'')))"
  proof (intro impI conjI)
    assume a: "split_text E' = split_text E \<and>
          process_nodes_and_store E' nodes pdf_id w' = (Inr (), w'')"
    then have sp: "split_text E' = split_text E"
      and rerun: "process_nodes_and_store E' nodes pdf_id w' = (Inr (), w'')"
      by simp_all
    show "fst ` set (index w'') = fst ` set (index w) \<union> set (node_ids E pdf_id 0 nodes)"
      using run sp rerun by (rule rerun_ids)
    assume "distinct (map fst (index w))"
    then have "distinct (map fst (index w'))"
      by (rule run_keeps_ids(3) [OF run])
    then show "distinct (map fst (index w''))"
      by (rule run_keeps_ids(3) [OF rerun])
  qed
qed

theorem indexing_failure_aborts_witness:
  "fst late_failure = Inl (RemoteError ''timeout'') \<and>
   map call_error (calls (snd late_failure)) = [None, None, Some (RemoteError ''timeout'')] \<and>
   (\<exists>pre cl. calls (snd late_failure) = calls empty_world @ pre @ [cl] \<and>
            (\<forall>c\<in>set pre. call_error c = None) \<and> call_error cl = Some (RemoteError ''timeout'') \<and>
            (\<forall>vs r. IndexUpsert vs None \<in> set pre \<and> r \<in> set vs \<longrightarrow>
               map_of (index (snd late_failure)) (fst r) = Some (snd r))) \<and>
   map fst (index (snd late_failure)) = [''doc_node0_chunk0''] \<and>
   fst rerun_after_failure = Inr () \<and>
   fst ` set (index (snd rerun_after_failure)) =
     fst ` set (index empty_world) \<union> set (node_ids (timeout_env 2) ''doc'' 0 two_nodes) \<and>
   map fst (index (snd rerun_after_failure)) = [''doc_node0_chunk0'', ''doc_node1_chunk0'']"
proof -
  have f: "fst late_failure = Inl (RemoteError ''timeout'')"
    unfolding late_failure_def by code_simp
  have l: "map call_error (calls (snd late_failure)) = [None, None, Some (RemoteError ''timeout'')]"
    unfolding late_failure_def by code_simp
  have i: "map fst (index (snd late_failure)) = [''doc_node0_chunk0'']"
    unfolding late_failure_def by code_simp
  have r: "fst rerun_after_failure = Inr ()"
    unfolding rerun_after_failure_def late_failure_def by code_simp
  have j: "map fst (index (snd rerun_after_failure)) = [''doc_node0_chunk0'', ''doc_node1_chunk0'']"
    unfolding rerun_after_failure_def late_failure_def by code_simp
  have s: "split_text example_env = split_text (timeout_env 2)"
    by (simp add: timeout_env_def)
  have r1: "process_nodes_and_store (timeout_env 2) two_nodes ''doc'' empty_world =
      (Inl (RemoteError ''timeout''), snd late_failure)"
    using f by (simp add: late_failure_def prod_eq_iff)
  have r2: "process_nodes_and_store example_env two_nodes ''doc'' (snd late_failure) =
      (Inr (), snd rerun_after_failure)"
    using r by (simp add: rerun_after_failure_def prod_eq_iff)
  note T = indexing_failure_aborts [OF r1, where E' = example_env and w'' = "snd rerun_after_failure"]
  note A = T [THEN conjunct1]
  note B = T [THEN conjunct2, THEN conjunct2, THEN mp, OF conjI [OF s r2], THEN conjunct1]
  show ?thesis
    by (intro conjI f l A i r B j)
qed

section \<open>The batches of a run\<close>

lemma chunk_loop_batches:
  assumes "chunk_loop E pdf n nd c chunks vectors w = (Inr vs', w')"
    and "calls w = base @ cur"
    and "length vectors < 50"
  shows "\<exists>cur'. calls w' = base @ cur' \<and>
           map length (batches cur') =
             map length (batches cur) @ replicate ((length vectors + length chunks) div 50) 50 \<and>
           length vs' = (length vectors + length chunks) mod 50"
  using assms
proof (induction chunks arbitrary: c vectors w cur)
  case Nil
  then show ?case by simp
next
  case (Cons chunk chunks)
  obtain r0 w1 where ce: "create_embedding E chunk ''passage'' w = (r0, w1)"
    by (cases "create_embedding E chunk ''passage'' w")
  with Cons.prems(1) obtain v where r0: "r0 = Inr v"
    by (cases r0) auto
  let ?x = "(vector_id pdf n c, v, chunk_metadata E pdf n nd c chunk)"
  let ?vs1 = "vectors @ [?x]"
  let ?cur1 = "cur @ [EmbeddingsCreate chunk ''passage'' r0]"
  from create_embedding_effect [OF ce] Cons.prems(2)
  have c1: "calls w1 = base @ ?cur1" by simp
  have b1: "batches ?cur1 = batches cur" by (simp add: batches_append)
  show ?case
  proof (cases "50 \<le> length ?vs1")
    case True
    with Cons.prems(3) have k: "length vectors = 49" by simp
    obtain u w2 where up: "upsert E ?vs1 w1 = (u, w2)"
      by (cases "upsert E ?vs1 w1")
    with Cons.prems(1) ce r0 True have u: "u = None"
      by (cases u) (auto simp: Let_def)
    with Cons.prems(1) ce r0 True up
    have rec: "chunk_loop E pdf n nd (Suc c) chunks [] w2 = (Inr vs', w')"
      by (simp add: Let_def)
    let ?cur2 = "?cur1 @ [IndexUpsert ?vs1 u]"
    from upsert_calls [OF up] c1 have c2: "calls w2 = base @ ?cur2" by simp
    have b2: "map length (batches ?cur2) = map length (batches cur) @ [50]"
      using k by (simp add: batches_append)
    have "length ([]::vector list) < 50" by simp
    from Cons.IH [OF rec c2 this] obtain cur' where "calls w' = base @ cur'"
      and "map length (batches cur') =
             map length (batches ?cur2) @ replicate ((length ([]::vector list) + length chunks) div 50) 50"
      and "length vs' = (length ([]::vector list) + length chunks) mod 50"
      by blast
    moreover have "(length vectors + length (chunk # chunks)) div 50 = Suc (length chunks div 50)"
      using k by simp
    moreover have "(length vectors + length (chunk # chunks)) mod 50 = length chunks mod 50"
      using k by simp
    ultimately show ?thesis
      unfolding b2 by (intro exI [of _ cur']) simp
  next
    case False
    with Cons.prems(1) ce r0
    have rec: "chunk_loop E pdf n nd (Suc c) chunks ?vs1 w1 = (Inr vs', w')"
      by (simp add: Let_def)
    from False have "length ?vs1 < 50" by simp
    from Cons.IH [OF rec c1 this] obtain cur' where "calls w' = base @ cur'"
      and "map length (batches cur') =
             map length (batches ?cur1) @ replicate ((length ?vs1 + length chunks) div 50) 50"
      and "length vs' = (length ?vs1 + length chunks) mod 50"
      by blast
    then show ?thesis
      unfolding b1 by (intro exI [of _ cur']) simp
  qed
qed

text \<open>
  For a single node the batches are as the batch boundary asks: a successful run over one
  node of R chunks makes \<open>R div 50\<close> upsert calls of 50 records, followed by one call of
  \<open>R mod 50\<close> records when that is not zero.
\<close>

lemma single_node_batches:
  assumes run: "process_nodes_and_store E [nd] pdf_id w = (Inr (), w')"
    and new: "calls w' = calls w @ new"
  shows "map length (batches new) =
           replicate (length (split_text E (get_content nd)) div 50) 50 @
           (if length (split_text E (get_content nd)) mod 50 = 0 then []
            else [length (split_text E (get_content nd)) mod 50])"
proof -
  let ?chunks = "split_text E (get_content nd)"
  obtain r1 w1 where cl: "chunk_loop E pdf_id 0 nd 0 ?chunks [] w = (r1, w1)"
    by (cases "chunk_loop E pdf_id 0 nd 0 ?chunks [] w")
  with run obtain vs1 where r1: "r1 = Inr vs1"
    by (cases r1) (auto simp: process_nodes_and_store_def Let_def)
  have c0: "calls w = calls w @ []" by simp
  have "length ([]::vector list) < 50" by simp
  from chunk_loop_batches [OF cl [unfolded r1] c0 this]
  obtain cur1 where c1: "calls w1 = calls w @ cur1"
    and b1: "map length (batches cur1) = replicate (length ?chunks div 50) 50"
    and l1: "length vs1 = length ?chunks mod 50"
    by auto
  show ?thesis
  proof (cases "vs1 = []")
    case True
    with run cl r1 have "w' = w1"
      by (simp add: process_nodes_and_store_def Let_def)
    with c1 new have "new = cur1" by simp
    with b1 l1 True show ?thesis by simp
  next
    case False
    obtain u w2 where up: "upsert E vs1 w1 = (u, w2)"
      by (cases "upsert E vs1 w1")
    with run cl r1 False have u: "u = None"
      by (cases u) (auto simp: process_nodes_and_store_def Let_def)
    with run cl r1 False up have "w' = w2"
      by (simp add: process_nodes_and_store_def Let_def)
    with upsert_calls [OF up] c1 new have "new = cur1 @ [IndexUpsert vs1 u]" by simp
    moreover from False l1 have "length (split_text E (get_content nd)) mod 50 \<noteq> 0"
      by (metis length_0_conv)
    ultimately show ?thesis using b1 l1 by (simp add: batches_append)
  qed
qed

text \<open>
  Claim C2 does not hold of the code for more than one node. Two nodes of one chunk each
  give R = 2 records; with B = 50 the claim asks for one upsert call carrying both.
  The run makes two: the flush of the remainder stands inside the loop over the nodes and
  does not reset the buffer, so the first call carries the record of node 0 and the
  second carries it again, with the record of node 1.
\<close>

theorem flush_inside_node_loop:
  "fst first_run = Inr () \<and>
   embedded (calls (snd first_run)) = [''alpha'', ''beta''] \<and>
   map (map fst) (batches (calls (snd first_run))) =
     [[''doc_node0_chunk0''], [''doc_node0_chunk0'', ''doc_node1_chunk0'']] \<and>
   map call_error (calls (snd first_run)) = [None, None, None, None]"
  unfolding first_run_def by code_simp

section \<open>Search\<close>

lemma format_matches_Inr:
  "format_matches E ms acc = Inr rs \<Longrightarrow>
     \<exists>rs'. rs = acc @ rs' \<and> list_all2 (\<lambda>m r. format_match E m = Inr r) ms rs'"
proof (induction ms arbitrary: acc)
  case Nil
  then show ?case by simp
next
  case (Cons m ms)
  from Cons.prems obtain r where r: "format_match E m = Inr r"
    and rec: "format_matches E ms (acc @ [r]) = Inr rs"
    by (auto split: sum.splits)
  from Cons.IH [OF rec] obtain rs' where "rs = (acc @ [r]) @ rs'"
    and "list_all2 (\<lambda>m r. format_match E m = Inr r) ms rs'"
    by blast
  with r show ?case by (intro exI [of _ "r # rs'"]) simp
qed

lemma format_matches_Inl:
  "m \<in> set ms \<Longrightarrow> format_match E m = Inl e \<Longrightarrow> \<exists>e'. format_matches E ms acc = Inl e'"
proof (induction ms arbitrary: acc)
  case Nil
  then show ?case by simp
next
  case (Cons x ms)
  show ?case
  proof (cases "format_match E x")
    case (Inl e1)
    then show ?thesis by simp
  next
    case (Inr r)
    with Cons.prems have "m \<in> set ms" by auto
    from Cons.IH [OF this Cons.prems(2)] Inr show ?thesis by simp
  qed
qed

lemma format_matches_total:
  "\<forall>m\<in>set ms. \<exists>r. format_match E m = Inr r \<Longrightarrow> \<exists>rs. format_matches E ms acc = Inr rs"
proof (induction ms arbitrary: acc)
  case Nil
  then show ?case by simp
next
  case (Cons m ms)
  from Cons.prems obtain r where r: "format_match E m = Inr r" by auto
  from Cons.prems have "\<forall>m\<in>set ms. \<exists>r. format_match E m = Inr r" by simp
  from Cons.IH [OF this, of "acc @ [r]"] r show ?case by simp
qed

lemma format_match_caught:
  "(\<forall>e. structured_result E m = Inl e \<longrightarrow> e = JSONDecodeError \<or> e = KeyError) \<Longrightarrow>
     \<exists>r. format_match E m = Inr r"
  by (cases "structured_result E m") (auto simp: format_match_def)

lemma search_similar_Inr:
  assumes "search_similar E q top_k f w = (Inr rs, w')"
  shows "\<exists>v ms. embeddings_create E (length (calls w)) q ''query'' = Inr v \<and>
           index_query E (Suc (length (calls w))) v top_k f = Inr ms \<and>
           calls w' = calls w @ [EmbeddingsCreate q ''query'' (Inr v), IndexQuery v top_k f (Inr ms)] \<and>
           index w' = index w \<and>
           format_matches E ms [] = Inr rs"
  using assms
  by (auto simp: search_similar_def create_embedding_def query_def Let_def split: sum.splits)

lemma format_match_score: "format_match E m = Inr r \<Longrightarrow> result_score r = score m"
  by (auto simp: format_match_def structured_result_def fallback_result_def result_score_def
      dict_get_def split: sum.splits if_splits)

lemma format_matches_scores:
  "list_all2 (\<lambda>m r. format_match E m = Inr r) ms rs \<Longrightarrow> map result_score rs = map score ms"
  by (induction ms rs rule: list_all2_induct) (simp_all add: format_match_score)

text \<open>
  Claim C7. Assume the store answers a query for \<open>top_k\<close> matches with at most
  \<open>top_k\<close> matches in descending order of score. Then a search that returns has at
  most \<open>top_k\<close> results, their scores are non-increasing, and the results are the
  matches of the store in the store's order: the i-th result is the formatting of the
  i-th match and carries its score.
\<close>

theorem search_similar_top_k:
  assumes store: "\<forall>n v ms. index_query E n v top_k f = Inr ms \<longrightarrow>
                    int (length ms) \<le> top_k \<and> sorted_wrt (\<ge>) (map score ms)"
    and run: "search_similar E q top_k f w = (Inr rs, w')"
  shows "int (length rs) \<le> top_k \<and> sorted_wrt (\<ge>) (map result_score rs) \<and>
         (\<exists>v ms. calls w' = calls w @ [EmbeddingsCreate q ''query'' (Inr v),
                                        IndexQuery v top_k f (Inr ms)] \<and>
                 list_all2 (\<lambda>m r. format_match E m = Inr r) ms rs \<and>
                 map result_score rs = map score ms)"
proof -
  from search_similar_Inr [OF run] obtain v ms
    where q: "index_query E (Suc (length (calls w))) v top_k f = Inr ms"
      and c: "calls w' = calls w @ [EmbeddingsCreate q ''query'' (Inr v), IndexQuery v top_k f (Inr ms)]"
      and fm: "format_matches E ms [] = Inr rs"
    by blast
  from format_matches_Inr [OF fm]
  have all: "list_all2 (\<lambda>m r. format_match E m = Inr r) ms rs" by simp
  then have len: "length rs = length ms" by (simp add: list_all2_lengthD)
  from all have sc: "map result_score rs = map score ms" by (rule format_matches_scores)
  from store q have "int (length ms) \<le> top_k" and "sorted_wrt (\<ge>) (map score ms)" by blast+
  with len sc c all show ?thesis by auto
qed

theorem search_similar_top_k_witness:
  "fst two_hits = Inr
     [PDict [(''score'', PFloat 0.9), (''pdf_id'', PStr ''doc''), (''chunk_index'', PInt 0),
             (''page_num'', PInt 3), (''image_path'', PStr ''''), (''content'', PStr ''alpha'')],
      PDict [(''score'', PFloat 0.5), (''pdf_id'', PStr ''doc''), (''chunk_index'', PInt 7),
             (''page_num'', PStr ''''), (''image_path'', PStr ''''), (''content'', PStr ''{bad'')]] \<and>
   int (length (projr (fst two_hits))) \<le> 5 \<and>
   sorted_wrt (\<ge>) (map result_score (projr (fst two_hits)))"
proof -
  have v: "fst two_hits = Inr
     [PDict [(''score'', PFloat 0.9), (''pdf_id'', PStr ''doc''), (''chunk_index'', PInt 0),
             (''page_num'', PInt 3), (''image_path'', PStr ''''), (''content'', PStr ''alpha'')],
      PDict [(''score'', PFloat 0.5), (''pdf_id'', PStr ''doc''), (''chunk_index'', PInt 7),
             (''page_num'', PStr ''''), (''image_path'', PStr ''''), (''content'', PStr ''{bad'')]]"
    unfolding two_hits_def by code_simp
  then have "fst two_hits = Inr (projr (fst two_hits))" by simp
  then have run: "search_similar (search_env [stored_match, malformed_match]) ''what is X?'' 5 None empty_world
      = (Inr (projr (fst two_hits)), snd two_hits)"
    by (simp add: two_hits_def prod_eq_iff)
  have store: "\<forall>n v ms. index_query (search_env [stored_match, malformed_match]) n v 5 None = Inr ms \<longrightarrow>
                    int (length ms) \<le> 5 \<and> sorted_wrt (\<ge>) (map score ms)"
    by (simp add: search_env_def stored_match_def malformed_match_def)
  from search_similar_top_k [OF store run] v show ?thesis by simp
qed

text \<open>
  Claim C3, as stated, fails in one point: it holds of a search only when the search
  returns. The store answers with two matches, the first with a \<open>text\<close> that is not
  JSON, the second with the \<open>text\<close> \<open>null\<close>. Both remote calls succeed and the first
  match is formatted as the fallback result, but the second makes the loop raise
  AttributeError (claim C9), the search re-raises it, and no result list is returned: the
  malformed match appears in no result.
\<close>

theorem malformed_match_lost_counterexample:
  "map_of (metadata malformed_match) ''text'' = Some (PStr ''{bad'') \<and>
   json_loads (search_env [malformed_match, null_match]) ''{bad'' = Inl JSONDecodeError \<and>
   calls (snd lost_hit) =
     [EmbeddingsCreate ''what is X?'' ''query'' (Inr [1, 0]),
      IndexQuery [1, 0] 5 None (Inr [malformed_match, null_match])] \<and>
   format_match (search_env [malformed_match, null_match]) malformed_match = Inr (PDict
     [(''score'', PFloat 0.5), (''pdf_id'', PStr ''doc''), (''chunk_index'', PInt 7),
      (''page_num'', PStr ''''), (''image_path'', PStr ''''), (''content'', PStr ''{bad'')]) \<and>
   fst lost_hit = Inl AttributeError"
  unfolding lost_hit_def by code_simp

text \<open>
  Claim C3, amended. A match whose metadata \<open>text\<close> is a string that the JSON parser
  rejects (JSONDecodeError) is formatted, without raising, as the fallback result: its
  score, its \<open>pdf_id\<close> and its \<open>chunk_index\<close> as they are in the match, empty
  \<open>page_num\<close> and \<open>image_path\<close>, and the raw text as content. When the embedding call
  and the query succeed and no match of the store's answer raises, while it is formatted,
  an exception other than JSONDecodeError and KeyError, the search returns, with one
  result for each match, and the fallback result stands at the position the store gave
  the match. And in every search that returns, the match is in the results at that
  position.
\<close>

theorem malformed_metadata_fallback:
  assumes md: "map_of (metadata m) ''text'' = Some (PStr t)"
    and bad: "json_loads E t = Inl JSONDecodeError"
  shows "format_match E m = Inr (PDict
           [(''score'', PFloat (score m)),
            (''pdf_id'', dict_get (metadata m) ''pdf_id'' PNone),
            (''chunk_index'', dict_get (metadata m) ''chunk_index'' PNone),
            (''page_num'', PStr ''''),
            (''image_path'', PStr ''''),
            (''content'', PStr t)]) \<and>
         (embeddings_create E (length (calls w)) q ''query'' = Inr v \<and>
          index_query E (Suc (length (calls w))) v top_k f = Inr ms \<and>
          i < length ms \<and> ms ! i = m \<and>
          (\<forall>m'\<in>set ms. \<forall>e. structured_result E m' = Inl e \<longrightarrow> e = JSONDecodeError \<or> e = KeyError) \<longrightarrow>
            (\<exists>rs w'. search_similar E q top_k f w = (Inr rs, w') \<and>
               length rs = length ms \<and>
               rs ! i = PDict
                 [(''score'', PFloat (score m)),
                  (''pdf_id'', dict_get (metadata m) ''pdf_id'' PNone),
                  (''chunk_index'', dict_get (metadata m) ''chunk_index'' PNone),
                  (''page_num'', PStr ''''),
                  (''image_path'', PStr ''''),
                  (''content'', PStr t)])) \<and>
         (search_similar E q top_k f w = (Inr rs, w') \<and>
          calls w' = calls w @ [EmbeddingsCreate q ''query'' (Inr v), IndexQuery v top_k f (Inr ms)] \<and>
          i < length ms \<and> ms ! i = m \<longrightarrow>
            length rs = length ms \<and>
            rs ! i = PDict
              [(''score'', PFloat (score m)),
               (''pdf_id'', dict_get (metadata m) ''pdf_id'' PNone),
               (''chunk_index'', dict_get (metadata m) ''chunk_index'' PNone),
               (''page_num'', PStr ''''),
               (''image_path'', PStr ''''),
               (''content'', PStr t)])"
proof -
  let ?fb = "PDict
           [(''score'', PFloat (score m)),
            (''pdf_id'', dict_get (metadata m) ''pdf_id'' PNone),
            (''chunk_index'', dict_get (metadata m) ''chunk_index'' PNone),
            (''page_num'', PStr ''''),
            (''image_path'', PStr ''''),
            (''content'', PStr t)]"
  have fm: "format_match E m = Inr ?fb"
    using md bad
    by (simp add: format_match_def structured_result_def loads_def dict_get_def fallback_result_def)
  have at: "length rs = length ms \<and> rs ! i = ?fb"
    if fms: "format_matches E ms [] = Inr rs" and i: "i < length ms" "ms ! i = m" for rs ms
  proof -
    from format_matches_Inr [OF fms]
    have all: "list_all2 (\<lambda>m r. format_match E m = Inr r) ms rs" by simp
    then have len: "length rs = length ms" by (simp add: list_all2_lengthD)
    from all i have "format_match E m = Inr (rs ! i)"
      by (auto dest: list_all2_nthD)
    with fm len show ?thesis by simp
  qed
  have returns: "\<exists>rs w'. search_similar E q top_k f w = (Inr rs, w') \<and> length rs = length ms \<and> rs ! i = ?fb"
    if a: "embeddings_create E (length (calls w)) q ''query'' = Inr v \<and>
          index_query E (Suc (length (calls w))) v top_k f = Inr ms \<and>
          i < length ms \<and> ms ! i = m \<and>
          (\<forall>m'\<in>set ms. \<forall>e. structured_result E m' = Inl e \<longrightarrow> e = JSONDecodeError \<or> e = KeyError)"
  proof -
    from a have "\<forall>m'\<in>set ms. \<exists>r. format_match E m' = Inr r"
      by (blast intro: format_match_caught)
    from format_matches_total [OF this] obtain rs where fms: "format_matches E ms [] = Inr rs"
      by blast
    from a have i: "i < length ms" "ms ! i = m" by simp_all
    from a fms have "\<exists>w'. search_similar E q top_k f w = (Inr rs, w')"
      by (simp add: search_similar_def create_embedding_def query_def Let_def)
    with at [OF fms i] show ?thesis by blast
  qed
  have returned: "length rs = length ms \<and> rs ! i = ?fb"
    if a: "search_similar E q top_k f w = (Inr rs, w') \<and>
          calls w' = calls w @ [EmbeddingsCreate q ''query'' (Inr v), IndexQuery v top_k f (Inr ms)] \<and>
          i < length ms \<and> ms ! i = m"
  proof -
    from a have run: "search_similar E q top_k f w = (Inr rs, w')" by simp
    from search_similar_Inr [OF run] a have fms: "format_matches E ms [] = Inr rs" by auto
    from a have i: "i < length ms" "ms ! i = m" by simp_all
    from at [OF fms i] show ?thesis .
  qed
  from fm returns returned show ?thesis by blast
qed

theorem malformed_metadata_fallback_witness:
  "format_match (search_env [stored_match, malformed_match]) malformed_match = Inr (PDict
     [(''score'', PFloat 0.5), (''pdf_id'', PStr ''doc''), (''chunk_index'', PInt 7),
      (''page_num'', PStr ''''), (''image_path'', PStr ''''), (''content'', PStr ''{bad'')]) \<and>
   (\<exists>rs w'. search_similar (search_env [stored_match, malformed_match]) ''what is X?'' 5 None empty_world
               = (Inr rs, w') \<and>
      length rs = 2 \<and>
      rs ! 1 = PDict
        [(''score'', PFloat 0.5), (''pdf_id'', PStr ''doc''), (''chunk_index'', PInt 7),
         (''page_num'', PStr ''''), (''image_path'', PStr ''''), (''content'', PStr ''{bad'')]) \<and>
   length (projr (fst two_hits)) = 2 \<and>
   projr (fst two_hits) ! 1 = PDict
     [(''score'', PFloat 0.5), (''pdf_id'', PStr ''doc''), (''chunk_index'', PInt 7),
      (''page_num'', PStr ''''), (''image_path'', PStr ''''), (''content'', PStr ''{bad'')]"
proof -
  let ?E = "search_env [stored_match, malformed_match]"
  have md: "map_of (metadata malformed_match) ''text'' = Some (PStr ''{bad'')"
    by (simp add: malformed_match_def)
  have bad: "json_loads ?E ''{bad'' = Inl JSONDecodeError"
    by code_simp
  have "fst two_hits = Inr
     [PDict [(''score'', PFloat 0.9), (''pdf_id'', PStr ''doc''), (''chunk_index'', PInt 0),
             (''page_num'', PInt 3), (''image_path'', PStr ''''), (''content'', PStr ''alpha'')],
      PDict [(''score'', PFloat 0.5), (''pdf_id'', PStr ''doc''), (''chunk_index'', PInt 7),
             (''page_num'', PStr ''''), (''image_path'', PStr ''''), (''content'', PStr ''{bad'')]]"
    unfolding two_hits_def by code_simp
  then have "fst two_hits = Inr (projr (fst two_hits))" by simp
  then have run: "search_similar ?E ''what is X?'' 5 None empty_world = (Inr (projr (fst two_hits)), snd two_hits)"
    by (simp add: two_hits_def prod_eq_iff)
  have log: "calls (snd two_hits) = calls empty_world @
      [EmbeddingsCreate ''what is X?'' ''query'' (Inr [1, 0]),
       IndexQuery [1, 0] 5 None (Inr [stored_match, malformed_match])]"
    unfolding two_hits_def by code_simp
  have i: "(1::nat) < length [stored_match, malformed_match] \<and> [stored_match, malformed_match] ! 1 = malformed_match"
    by simp
  have emb: "embeddings_create ?E (length (calls empty_world)) ''what is X?'' ''query'' = Inr [1, 0]"
    by code_simp
  have qry: "index_query ?E (Suc (length (calls empty_world))) [1, 0] 5 None = Inr [stored_match, malformed_match]"
    by (simp add: search_env_def)
  have s1: "structured_result ?E stored_match = Inr (PDict
     [(''score'', PFloat 0.9), (''pdf_id'', PStr ''doc''), (''chunk_index'', PInt 0),
      (''page_num'', PInt 3), (''image_path'', PStr ''''), (''content'', PStr ''alpha'')])"
    by code_simp
  have s2: "structured_result ?E malformed_match = Inl JSONDecodeError"
    by code_simp
  have caught: "\<forall>m'\<in>set [stored_match, malformed_match]. \<forall>e.
      structured_result ?E m' = Inl e \<longrightarrow> e = JSONDecodeError \<or> e = KeyError"
    using s1 s2 by simp
  note T = malformed_metadata_fallback [OF md bad, where q = "''what is X?''" and top_k = 5 and f = None
      and w = empty_world and rs = "projr (fst two_hits)" and w' = "snd two_hits" and v = "[1, 0]"
      and ms = "[stored_match, malformed_match]" and i = 1]
  from T run log i emb qry caught show ?thesis
    by (simp add: malformed_match_def dict_get_def)
qed

text \<open>
  Claim C9. A match whose metadata \<open>text\<close> parses as JSON, but to a value that is not an
  object (\<open>null\<close>, a list, a number, a string, a boolean), makes the formatting of
  that match raise AttributeError, which the handler for JSONDecodeError and KeyError
  does not catch. A search whose query returns such a match among its matches raises: no
  result list is returned at all, so the other matches are lost with it.
\<close>

theorem non_object_json_raises:
  assumes md: "map_of (metadata m) ''text'' = Some (PStr t)"
    and ok: "json_loads E t = Inr j"
    and nd: "\<not> is_dict j"
  shows "format_match E m = Inl AttributeError \<and>
         (embeddings_create E (length (calls w)) q ''query'' = Inr v \<and>
          index_query E (Suc (length (calls w))) v top_k f = Inr ms \<and> m \<in> set ms \<longrightarrow>
            (\<exists>e. fst (search_similar E q top_k f w) = Inl e))"
proof (intro conjI impI)
  from nd have "method_get j k d = Inl AttributeError" for k d
    by (cases j) (simp_all add: method_get_def is_dict_def)
  with md ok show fm: "format_match E m = Inl AttributeError"
    by (simp add: format_match_def structured_result_def loads_def dict_get_def)
  assume a: "embeddings_create E (length (calls w)) q ''query'' = Inr v \<and>
          index_query E (Suc (length (calls w))) v top_k f = Inr ms \<and> m \<in> set ms"
  then have "m \<in> set ms" by simp
  from format_matches_Inl [OF this fm] obtain e where "format_matches E ms [] = Inl e"
    by blast
  with a show "\<exists>e. fst (search_similar E q top_k f w) = Inl e"
    by (simp add: search_similar_def create_embedding_def query_def Let_def)
qed

theorem non_object_json_raises_witness:
  "json_loads (search_env [stored_match, null_match]) ''null'' = Inr PNone \<and>
   json_loads (search_env [stored_match, null_match]) ''[]'' = Inr (PList []) \<and>
   format_match (search_env [stored_match, null_match]) null_match = Inl AttributeError \<and>
   fst null_hit = Inl AttributeError"
proof -
  let ?E = "search_env [stored_match, null_match]"
  have md: "map_of (metadata null_match) ''text'' = Some (PStr ''null'')"
    by (simp add: null_match_def)
  have ok: "json_loads ?E ''null'' = Inr PNone"
    by code_simp
  have ok2: "json_loads ?E ''[]'' = Inr (PList [])"
    by code_simp
  have nd: "\<not> is_dict PNone"
    by (simp add: is_dict_def)
  have h: "fst null_hit = Inl AttributeError"
    unfolding null_hit_def by code_simp
  from non_object_json_raises [OF md ok nd] ok ok2 h show ?thesis by simp
qed

section \<open>The answer operation\<close>

lemma search_and_answer_never_returns: "fst (search_and_answer E q top_k w) \<noteq> Inr a"
  by (simp add: search_and_answer_def list_matches_def split: prod.splits sum.splits)

text \<open>
  Claim C1 does not hold of the code. \<^verbatim>\<open>search_and_answer\<close> reads
  \<^verbatim>\<open>search_results.matches\<close>, but \<^verbatim>\<open>search_results\<close> is the list that
  \<^verbatim>\<open>search_similar\<close> returns, and a list has no such attribute: with every remote
  call succeeding, the search itself returns its result and the answer operation raises
  AttributeError, with one match in the store and with none.
\<close>

theorem search_and_answer_raises:
  "fst (search_similar (search_env [stored_match]) ''what is X?'' 5 None empty_world) = Inr
     [PDict [(''score'', PFloat 0.9), (''pdf_id'', PStr ''doc''), (''chunk_index'', PInt 0),
             (''page_num'', PInt 3), (''image_path'', PStr ''''), (''content'', PStr ''alpha'')]] \<and>
   fst (search_and_answer (search_env [stored_match]) ''what is X?'' 5 empty_world) = Inl AttributeError \<and>
   fst (search_and_answer (search_env []) ''what is X?'' 5 empty_world) = Inl AttributeError"
  by code_simp

section \<open>From the written metadata back to a search result\<close>

lemma chunk_loop_records:
  assumes "chunk_loop E pdf n nd c chunks vectors w = (res, w')"
    and "calls w = base @ cur"
    and "\<forall>r\<in>set vectors \<union> set (concat (batches cur)). P r"
    and "\<forall>j<length chunks. \<forall>v.
           P (vector_id pdf n (c + j), v, chunk_metadata E pdf n nd (c + j) (chunks ! j))"
  shows "\<exists>cur'. calls w' = base @ cur' \<and> (\<forall>r\<in>set (concat (batches cur')). P r) \<and>
           (\<forall>vs. res = Inr vs \<longrightarrow> (\<forall>r\<in>set vs. P r))"
  using assms
proof (induction chunks arbitrary: c vectors w cur)
  case Nil
  then show ?case by auto
next
  case (Cons chunk chunks)
  obtain r0 w1 where ce: "create_embedding E chunk ''passage'' w = (r0, w1)"
    by (cases "create_embedding E chunk ''passage'' w")
  from create_embedding_effect [OF ce] Cons.prems(2)
  have c1: "calls w1 = base @ (cur @ [EmbeddingsCreate chunk ''passage'' r0])"
    by simp
  have b1: "batches (cur @ [EmbeddingsCreate chunk ''passage'' r0]) = batches cur"
    by (simp add: batches_append)
  have tail: "\<forall>j<length chunks. \<forall>v.
      P (vector_id pdf n (Suc c + j), v, chunk_metadata E pdf n nd (Suc c + j) (chunks ! j))"
  proof (intro allI impI)
    fix j v assume "j < length chunks"
    then have "Suc j < length (chunk # chunks)" by simp
    with Cons.prems(4) have "P (vector_id pdf n (c + Suc j), v,
        chunk_metadata E pdf n nd (c + Suc j) ((chunk # chunks) ! Suc j))"
      by blast
    then show "P (vector_id pdf n (Suc c + j), v, chunk_metadata E pdf n nd (Suc c + j) (chunks ! j))"
      by simp
  qed
  show ?case
  proof (cases r0)
    case (Inl e)
    with Cons.prems(1) ce have "res = Inl e" "w' = w1" by auto
    with c1 b1 Cons.prems(3) show ?thesis
      by (intro exI [of _ "cur @ [EmbeddingsCreate chunk ''passage'' r0]"]) simp
  next
    case (Inr v)
    let ?x = "(vector_id pdf n c, v, chunk_metadata E pdf n nd c chunk)"
    let ?vs1 = "vectors @ [?x]"
    from Cons.prems(4) have "P (vector_id pdf n (c + 0), v,
        chunk_metadata E pdf n nd (c + 0) ((chunk # chunks) ! 0))"
      by blast
    then have px: "P ?x" by simp
    with Cons.prems(3) have pv: "\<forall>r\<in>set ?vs1 \<union> set (concat (batches cur)). P r"
      by auto
    show ?thesis
    proof (cases "50 \<le> length ?vs1")
      case True
      obtain u w2 where up: "upsert E ?vs1 w1 = (u, w2)"
        by (cases "upsert E ?vs1 w1")
      let ?cur2 = "cur @ [EmbeddingsCreate chunk ''passage'' r0, IndexUpsert ?vs1 u]"
      from upsert_calls [OF up] c1 have c2: "calls w2 = base @ ?cur2" by simp
      have p2: "\<forall>r\<in>set (concat (batches ?cur2)). P r"
        using pv by (auto simp: batches_append)
      show ?thesis
      proof (cases u)
        case None
        with Cons.prems(1) ce Inr True up
        have rec: "chunk_loop E pdf n nd (Suc c) chunks [] w2 = (res, w')"
          by (simp add: Let_def)
        from p2 have "\<forall>r\<in>set [] \<union> set (concat (batches ?cur2)). P r" by simp
        from Cons.IH [OF rec c2 this tail] show ?thesis .
      next
        case (Some e)
        with Cons.prems(1) ce Inr True up have "res = Inl e" "w' = w2"
          by (simp_all add: Let_def)
        with c2 p2 show ?thesis by (intro exI [of _ ?cur2]) simp
      qed
    next
      case False
      with Cons.prems(1) ce Inr
      have rec: "chunk_loop E pdf n nd (Suc c) chunks ?vs1 w1 = (res, w')"
        by (simp add: Let_def)
      from pv b1 have "\<forall>r\<in>set ?vs1 \<union> set (concat (batches (cur @ [EmbeddingsCreate chunk ''passage'' r0]))). P r"
        by simp
      from Cons.IH [OF rec c1 this tail] show ?thesis .
    qed
  qed
qed

lemma node_loop_records:
  assumes "node_loop E pdf n nodes vectors w = (res, w')"
    and "calls w = base @ cur"
    and "\<forall>r\<in>set vectors \<union> set (concat (batches cur)). P r"
    and "\<forall>i<length nodes. \<forall>j<length (split_text E (get_content (nodes ! i))). \<forall>v.
           P (vector_id pdf (n + i) j, v,
              chunk_metadata E pdf (n + i) (nodes ! i) j (split_text E (get_content (nodes ! i)) ! j))"
  shows "\<exists>cur'. calls w' = base @ cur' \<and> (\<forall>r\<in>set (concat (batches cur')). P r) \<and>
           (\<forall>vs. res = Inr vs \<longrightarrow> (\<forall>r\<in>set vs. P r))"
  using assms
proof (induction nodes arbitrary: n vectors w cur)
  case Nil
  then show ?case by auto
next
  case (Cons nd nodes)
  let ?chunks = "split_text E (get_content nd)"
  obtain r1 w1 where cl: "chunk_loop E pdf n nd 0 ?chunks vectors w = (r1, w1)"
    by (cases "chunk_loop E pdf n nd 0 ?chunks vectors w")
  have here: "\<forall>j<length ?chunks. \<forall>v.
      P (vector_id pdf n (0 + j), v, chunk_metadata E pdf n nd (0 + j) (?chunks ! j))"
  proof (intro allI impI)
    fix j v assume j: "j < length ?chunks"
    have "0 < length (nd # nodes)" by simp
    with Cons.prems(4) j have "P (vector_id pdf (n + 0) j, v,
        chunk_metadata E pdf (n + 0) ((nd # nodes) ! 0) j
          (split_text E (get_content ((nd # nodes) ! 0)) ! j))"
      by (metis nth_Cons_0)
    then show "P (vector_id pdf n (0 + j), v, chunk_metadata E pdf n nd (0 + j) (?chunks ! j))"
      by simp
  qed
  have tail: "\<forall>i<length nodes. \<forall>j<length (split_text E (get_content (nodes ! i))). \<forall>v.
           P (vector_id pdf (Suc n + i) j, v,
              chunk_metadata E pdf (Suc n + i) (nodes ! i) j (split_text E (get_content (nodes ! i)) ! j))"
  proof (intro allI impI)
    fix i j v
    assume i: "i < length nodes" and j: "j < length (split_text E (get_content (nodes ! i)))"
    from i have "Suc i < length (nd # nodes)" by simp
    moreover from j have "j < length (split_text E (get_content ((nd # nodes) ! Suc i)))" by simp
    ultimately have "P (vector_id pdf (n + Suc i) j, v,
        chunk_metadata E pdf (n + Suc i) ((nd # nodes) ! Suc i) j
          (split_text E (get_content ((nd # nodes) ! Suc i)) ! j))"
      using Cons.prems(4) by blast
    then show "P (vector_id pdf (Suc n + i) j, v,
        chunk_metadata E pdf (Suc n + i) (nodes ! i) j (split_text E (get_content (nodes ! i)) ! j))"
      by simp
  qed
  from chunk_loop_records [OF cl Cons.prems(2) Cons.prems(3) here]
  obtain cur1 where c1: "calls w1 = base @ cur1"
    and p1: "\<forall>r\<in>set (concat (batches cur1)). P r"
    and v1: "\<forall>vs. r1 = Inr vs \<longrightarrow> (\<forall>r\<in>set vs. P r)"
    by blast
  show ?case
  proof (cases r1)
    case (Inl e)
    with Cons.prems(1) cl have "res = Inl e" "w' = w1" by (simp_all add: Let_def)
    with c1 p1 show ?thesis by (intro exI [of _ cur1]) simp
  next
    case (Inr vectors1)
    with v1 have pv: "\<forall>r\<in>set vectors1. P r" by simp
    show ?thesis
    proof (cases "vectors1 = []")
      case True
      with Cons.prems(1) cl Inr
      have rec: "node_loop E pdf (Suc n) nodes vectors1 w1 = (res, w')"
        by (simp add: Let_def)
      from pv p1 have "\<forall>r\<in>set vectors1 \<union> set (concat (batches cur1)). P r" by auto
      from Cons.IH [OF rec c1 this tail] show ?thesis .
    next
      case False
      obtain u w2 where up: "upsert E vectors1 w1 = (u, w2)"
        by (cases "upsert E vectors1 w1")
      let ?cur2 = "cur1 @ [IndexUpsert vectors1 u]"
      from upsert_calls [OF up] c1 have c2: "calls w2 = base @ ?cur2" by simp
      have p2: "\<forall>r\<in>set (concat (batches ?cur2)). P r"
        using pv p1 by (auto simp: batches_append)
      show ?thesis
      proof (cases u)
        case None
        with Cons.prems(1) cl Inr False up
        have rec: "node_loop E pdf (Suc n) nodes vectors1 w2 = (res, w')"
          by (simp add: Let_def)
        from pv p2 have "\<forall>r\<in>set vectors1 \<union> set (concat (batches ?cur2)). P r" by auto
        from Cons.IH [OF rec c2 this tail] show ?thesis .
      next
        case (Some e)
        with Cons.prems(1) cl Inr False up have "res = Inl e" "w' = w2"
          by (simp_all add: Let_def)
        with c2 p2 show ?thesis by (intro exI [of _ ?cur2]) simp
      qed
    qed
  qed
qed

lemma process_records:
  assumes run: "process_nodes_and_store E nodes pdf w = (res, w')"
    and new: "calls w' = calls w @ new"
    and r: "r \<in> set (concat (batches new))"
    and P: "\<forall>i<length nodes. \<forall>j<length (split_text E (get_content (nodes ! i))). \<forall>v.
           P (vector_id pdf i j, v,
              chunk_metadata E pdf i (nodes ! i) j (split_text E (get_content (nodes ! i)) ! j))"
  shows "P r"
proof -
  obtain res1 where nl: "node_loop E pdf 0 nodes [] w = (res1, w')"
    using run by (auto simp: process_nodes_and_store_def split: prod.splits sum.splits)
  have c0: "calls w = calls w @ []" by simp
  have p0: "\<forall>r\<in>set [] \<union> set (concat (batches [])). P r" by simp
  from P have P0: "\<forall>i<length nodes. \<forall>j<length (split_text E (get_content (nodes ! i))). \<forall>v.
           P (vector_id pdf (0 + i) j, v,
              chunk_metadata E pdf (0 + i) (nodes ! i) j (split_text E (get_content (nodes ! i)) ! j))"
    by simp
  from node_loop_records [OF nl c0 p0 P0]
  obtain cur' where c: "calls w' = calls w @ cur'" and p: "\<forall>r\<in>set (concat (batches cur')). P r"
    by blast
  from c new have "cur' = new" by simp
  with p r show ?thesis by blast
qed

lemma format_written_metadata:
  assumes "json_loads E (json_dumps E (node_info nd chunk)) = Inr (node_info nd chunk)"
  shows "format_match E \<lparr>score = s, metadata = chunk_metadata E pdf n nd c chunk\<rparr> = Inr (PDict
           [(''score'', PFloat s),
            (''pdf_id'', PStr pdf),
            (''chunk_index'', PInt (int c)),
            (''page_num'', (case page_num nd of Some p \<Rightarrow> PInt p | None \<Rightarrow> PStr '''')),
            (''image_path'', PStr (case image_path nd of Some p \<Rightarrow> p | None \<Rightarrow> '''')),
            (''content'', PStr chunk)])"
  using assms
  by (simp add: format_match_def structured_result_def loads_def dict_get_def chunk_metadata_def
      method_get_def node_info_def split: option.splits)

text \<open>
  Claim C6, as stated, fails in one point: a node without a page number is written with
  the empty string in its place, as a node without an image path is, and the empty
  string is what the search reads back. The claim names that normalisation for the image
  path only; for the page number it promises the node's own value, which here is
  \<open>None\<close>.
\<close>

theorem page_num_none_counterexample:
  "page_num (two_nodes ! 1) = None \<and>
   format_match example_env
     \<lparr>score = 1, metadata = chunk_metadata example_env ''doc'' 1 (two_nodes ! 1) 0 ''beta''\<rparr> =
   Inr (PDict
     [(''score'', PFloat 1), (''pdf_id'', PStr ''doc''), (''chunk_index'', PInt 0),
      (''page_num'', PStr ''''), (''image_path'', PStr ''img/p4.png''),
      (''content'', PStr ''beta'')])"
  by code_simp

text \<open>
  Claim C6, amended. Assume that the JSON parser reads back what the JSON printer wrote
  for the \<open>node_info\<close> of each chunk of the document (the contract of the \<^verbatim>\<open>json\<close>
  module). Then every record that a run of \<^verbatim>\<open>process_nodes_and_store\<close> sends to the
  store, whether the run ends normally or not, belongs to a chunk \<open>c\<close> of a node \<open>n\<close> of
  the document, carries the id of that pair, and formatting a match that holds the
  record's metadata, as \<^verbatim>\<open>search_similar\<close> does, gives the document id, the chunk
  index \<open>c\<close>, the text of the chunk, and the page number and the image path of the node,
  each with \<open>None\<close> replaced by the empty string.
\<close>

theorem written_metadata_round_trip:
  assumes lib: "\<forall>nd\<in>set nodes. \<forall>chunk\<in>set (split_text E (get_content nd)).
                  json_loads E (json_dumps E (node_info nd chunk)) = Inr (node_info nd chunk)"
    and run: "process_nodes_and_store E nodes pdf_id w = (res, w')"
    and new: "calls w' = calls w @ new"
    and r: "r \<in> set (concat (batches new))"
  shows "\<exists>n c. n < length nodes \<and> c < length (split_text E (get_content (nodes ! n))) \<and>
           fst r = vector_id pdf_id n c \<and>
           format_match E \<lparr>score = s, metadata = snd (snd r)\<rparr> = Inr (PDict
             [(''score'', PFloat s),
              (''pdf_id'', PStr pdf_id),
              (''chunk_index'', PInt (int c)),
              (''page_num'', (case page_num (nodes ! n) of Some p \<Rightarrow> PInt p | None \<Rightarrow> PStr '''')),
              (''image_path'', PStr (case image_path (nodes ! n) of Some p \<Rightarrow> p | None \<Rightarrow> '''')),
              (''content'', PStr (split_text E (get_content (nodes ! n)) ! c))])"
    (is "?P r")
proof (rule process_records [OF run new r, where P = ?P], intro allI impI)
  fix i j v
  assume i: "i < length nodes" and j: "j < length (split_text E (get_content (nodes ! i)))"
  let ?nd = "nodes ! i"
  let ?chunk = "split_text E (get_content ?nd) ! j"
  from i have "?nd \<in> set nodes" by simp
  moreover from j have "?chunk \<in> set (split_text E (get_content ?nd))" by simp
  ultimately have "json_loads E (json_dumps E (node_info ?nd ?chunk)) = Inr (node_info ?nd ?chunk)"
    using lib by blast
  from format_written_metadata [OF this, of s pdf_id i j] i j
  show "?P (vector_id pdf_id i j, v, chunk_metadata E pdf_id i ?nd j ?chunk)"
    by (intro exI [of _ i] exI [of _ j]) simp
qed

theorem written_metadata_round_trip_witness:
  "fst first_record = ''doc_node0_chunk0'' \<and>
   format_match example_env \<lparr>score = 1, metadata = snd (snd first_record)\<rparr> = Inr (PDict
     [(''score'', PFloat 1), (''pdf_id'', PStr ''doc''), (''chunk_index'', PInt 0),
      (''page_num'', PInt 3), (''image_path'', PStr ''''), (''content'', PStr ''alpha'')]) \<and>
   (\<exists>n c. n < length two_nodes \<and> c < length (split_text example_env (get_content (two_nodes ! n))) \<and>
           fst first_record = vector_id ''doc'' n c \<and>
           format_match example_env \<lparr>score = 1, metadata = snd (snd first_record)\<rparr> = Inr (PDict
             [(''score'', PFloat 1),
              (''pdf_id'', PStr ''doc''),
              (''chunk_index'', PInt (int c)),
              (''page_num'', (case page_num (two_nodes ! n) of Some p \<Rightarrow> PInt p | None \<Rightarrow> PStr '''')),
              (''image_path'', PStr (case image_path (two_nodes ! n) of Some p \<Rightarrow> p | None \<Rightarrow> '''')),
              (''content'', PStr (split_text example_env (get_content (two_nodes ! n)) ! c))]))"
proof -
  have a: "json_loads example_env (json_dumps example_env (node_info (two_nodes ! 0) ''alpha'')) =
      Inr (node_info (two_nodes ! 0) ''alpha'')"
    by code_simp
  have b: "json_loads example_env (json_dumps example_env (node_info (two_nodes ! 1) ''beta'')) =
      Inr (node_info (two_nodes ! 1) ''beta'')"
    by code_simp
  have s: "set two_nodes = {two_nodes ! 0, two_nodes ! 1}"
    by (simp add: two_nodes_def)
  have s0: "split_text example_env (get_content (two_nodes ! 0)) = [''alpha'']"
    by code_simp
  have s1: "split_text example_env (get_content (two_nodes ! 1)) = [''beta'']"
    by code_simp
  have lib: "\<forall>nd\<in>set two_nodes. \<forall>chunk\<in>set (split_text example_env (get_content nd)).
      json_loads example_env (json_dumps example_env (node_info nd chunk)) = Inr (node_info nd chunk)"
    unfolding s using a b s0 s1 by simp
  have run: "process_nodes_and_store example_env two_nodes ''doc'' empty_world = (fst first_run, snd first_run)"
    by (simp add: first_run_def)
  have new: "calls (snd first_run) = calls empty_world @ calls (snd first_run)"
    by (simp add: empty_world_def)
  have id: "fst first_record = ''doc_node0_chunk0''"
    unfolding first_record_def first_run_def by code_simp
  have ne: "concat (batches (calls (snd first_run))) \<noteq> []"
    unfolding first_run_def by code_simp
  then have r: "first_record \<in> set (concat (batches (calls (snd first_run))))"
    unfolding first_record_def by (rule hd_in_set)
  have fm: "format_match example_env \<lparr>score = 1, metadata = snd (snd first_record)\<rparr> = Inr (PDict
     [(''score'', PFloat 1), (''pdf_id'', PStr ''doc''), (''chunk_index'', PInt 0),
      (''page_num'', PInt 3), (''image_path'', PStr ''''), (''content'', PStr ''alpha'')])"
    unfolding first_record_def first_run_def by code_simp
  from written_metadata_round_trip [OF lib run new r, of 1] id fm show ?thesis
    by (intro conjI)
qed

section \<open>The chunk bound\<close>

lemma length_strip: "length (strip s) \<le> length s"
proof -
  have "length (dropWhile is_space (rev (dropWhile is_space s))) \<le> length (rev (dropWhile is_space s))"
    by (rule length_dropWhile_le)
  moreover have "length (dropWhile is_space s) \<le> length s"
    by (rule length_dropWhile_le)
  ultimately show ?thesis by (simp add: strip_def)
qed

lemma bounded_add_doc:
  assumes "bounded csize docs" and "length (concat current) \<le> csize"
  shows "bounded csize (add_doc docs current)"
proof (cases "join_docs current")
  case None
  with assms show ?thesis by (simp add: add_doc_def)
next
  case (Some doc)
  then have "doc = strip (concat current)"
    by (auto simp: join_docs_def Let_def split: if_splits)
  with length_strip [of "concat current"] assms(2) have "length doc \<le> csize" by simp
  with assms(1) Some show ?thesis by (simp add: add_doc_def bounded_def)
qed

lemma pop_front_total:
  assumes "tot = int (length (concat current))"
  shows "\<exists>current1 tot1. pop_front csize overlap len current tot = Some (current1, tot1) \<and>
           tot1 = int (length (concat current1)) \<and> set current1 \<subseteq> set current \<and>
           tot1 \<le> int overlap \<and> (tot1 + int len \<le> int csize \<or> tot1 \<le> 0)"
  using assms
proof (induction current arbitrary: tot)
  case Nil
  then show ?case by (simp add: keep_popping_def)
next
  case (Cons x xs)
  show ?case
  proof (cases "keep_popping csize overlap len tot")
    case True
    from Cons.prems have "tot - int (length x) = int (length (concat xs))" by simp
    from Cons.IH [OF this] True show ?thesis by auto
  next
    case False
    then have pf: "pop_front csize overlap len (x # xs) tot = Some (x # xs, tot)"
      by simp
    from False have "tot \<le> int overlap" and "tot + int len \<le> int csize \<or> tot \<le> 0"
      unfolding keep_popping_def by linarith+
    with pf Cons.prems show ?thesis by blast
  qed
qed

lemma merge_loop_bounded:
  assumes "tot = int (length (concat current))" and "tot \<le> int csize"
    and "\<forall>x\<in>set current. x \<noteq> []"
    and "\<forall>d\<in>set ds. d \<noteq> [] \<and> length d < csize"
    and "bounded csize docs"
  shows "\<exists>out. merge_loop csize overlap ds current tot docs = Some out \<and> bounded csize out"
  using assms
proof (induction ds arbitrary: current tot docs)
  case Nil
  then show ?case by (simp add: bounded_add_doc)
next
  case (Cons d ds)
  from Cons.prems(4) have d: "d \<noteq> []" "length d < csize" and ds: "\<forall>d\<in>set ds. d \<noteq> [] \<and> length d < csize"
    by simp_all
  show ?case
  proof (cases "tot + int (length d) > int csize \<and> current \<noteq> []")
    case True
    from pop_front_total [OF Cons.prems(1), of csize overlap "length d"]
    obtain current1 tot1 where pf: "pop_front csize overlap (length d) current tot = Some (current1, tot1)"
      and t1: "tot1 = int (length (concat current1))" and sub: "set current1 \<subseteq> set current"
      and stop: "tot1 + int (length d) \<le> int csize \<or> tot1 \<le> 0"
      by blast
    have a: "tot1 + int (length d) = int (length (concat (current1 @ [d])))"
      using t1 by simp
    have "0 \<le> tot1" using t1 by simp
    with stop d(2) have b: "tot1 + int (length d) \<le> int csize"
      by linarith
    have c: "\<forall>x\<in>set (current1 @ [d]). x \<noteq> []"
      using sub Cons.prems(3) d(1) by auto
    have e: "bounded csize (add_doc docs current)"
      using Cons.prems(1,2,5) by (intro bounded_add_doc) simp_all
    from True pf have "merge_loop csize overlap (d # ds) current tot docs =
        merge_loop csize overlap ds (current1 @ [d]) (tot1 + int (length d)) (add_doc docs current)"
      by simp
    with Cons.IH [OF a b c ds e] show ?thesis by simp
  next
    case False
    have a: "tot + int (length d) = int (length (concat (current @ [d])))"
      using Cons.prems(1) by simp
    have b: "tot + int (length d) \<le> int csize"
    proof (cases "current = []")
      case True
      with Cons.prems(1) d(2) show ?thesis by simp
    next
      case False
      with \<open>\<not> (tot + int (length d) > int csize \<and> current \<noteq> [])\<close> show ?thesis by simp
    qed
    have c: "\<forall>x\<in>set (current @ [d]). x \<noteq> []"
      using Cons.prems(3) d(1) by auto
    from False have "merge_loop csize overlap (d # ds) current tot docs =
        merge_loop csize overlap ds (current @ [d]) (tot + int (length d)) docs"
      by (simp only: merge_loop.simps if_False)
    with Cons.IH [OF a b c ds Cons.prems(5)] show ?thesis by simp
  qed
qed

lemma merge_splits_bounded:
  assumes "\<forall>d\<in>set ds. d \<noteq> [] \<and> length d < csize"
  shows "\<exists>out. merge_splits csize overlap ds = Some out \<and> bounded csize out"
  unfolding merge_splits_def
  using assms by (intro merge_loop_bounded) (simp_all add: bounded_def)

lemma split_with_nonempty: "\<forall>p\<in>set (split_with sep s). p \<noteq> []"
  by (simp add: split_with_def)

lemma split_with_chars: "\<forall>p\<in>set (split_with '''' s). length p = 1"
  by (auto simp: split_with_def)

lemma bounded_append: "bounded csize (xs @ ys) \<longleftrightarrow> bounded csize xs \<and> bounded csize ys"
  by (auto simp: bounded_def)

lemma merged_bounded:
  assumes "\<forall>g\<in>set gs. g \<noteq> [] \<and> length g < csize"
  shows "\<exists>merged. (if gs \<noteq> [] then merge_splits csize overlap gs else Some []) = Some merged \<and>
           bounded csize merged"
proof (cases "gs = []")
  case True
  then show ?thesis by (simp add: bounded_def)
next
  case False
  with merge_splits_bounded [OF assms, of overlap] show ?thesis by simp
qed

lemma split_bounded:
  "1 < csize \<Longrightarrow> seps \<noteq> [] \<Longrightarrow> last seps = '''' \<Longrightarrow>
     \<exists>out. split_text_rec csize overlap seps s = Some out \<and> bounded csize out"
  and
  "1 < csize \<Longrightarrow> (ns \<noteq> [] \<longrightarrow> last ns = '''') \<Longrightarrow>
     (ns = [] \<longrightarrow> (\<forall>p\<in>set ps. length p < csize)) \<Longrightarrow>
     \<forall>p\<in>set ps. p \<noteq> [] \<Longrightarrow> \<forall>g\<in>set gs. g \<noteq> [] \<and> length g < csize \<Longrightarrow>
     bounded csize fs \<Longrightarrow>
     \<exists>out. split_loop csize overlap ns ps gs fs = Some out \<and> bounded csize out"
proof (induction csize overlap seps s and csize overlap ns ps gs fs
    rule: split_text_rec_split_loop.induct)
  case (1 csize overlap s)
  then show ?case by simp
next
  case (2 csize overlap sep rest s)
  have ne: "\<forall>p\<in>set (split_with sep s). p \<noteq> []" by (rule split_with_nonempty)
  have g0: "\<forall>g\<in>set ([]::string list). g \<noteq> [] \<and> length g < csize" by simp
  have f0: "bounded csize []" by (simp add: bounded_def)
  show ?case
  proof (cases "sep = ''''")
    case True
    from split_with_chars [of s] "2.prems"(1) True
    have small: "[] = ([]::string list) \<longrightarrow> (\<forall>p\<in>set (split_with sep s). length p < csize)"
      by auto
    have "([]::string list) \<noteq> [] \<longrightarrow> last ([]::string list) = ''''" by simp
    from "2.IH"(1) [OF True "2.prems"(1) this small ne g0 f0] True show ?thesis by simp
  next
    case False
    with "2.prems"(2,3) have rest: "rest \<noteq> []" "last rest = ''''"
      by (auto split: if_splits)
    show ?thesis
    proof (cases "occurs sep s")
      case True
      from rest have a: "rest \<noteq> [] \<longrightarrow> last rest = ''''"
        and b: "rest = [] \<longrightarrow> (\<forall>p\<in>set (split_with sep s). length p < csize)"
        by simp_all
      from "2.IH"(2) [OF False True "2.prems"(1) a b ne g0 f0] False True show ?thesis by simp
    next
      case no: False
      from "2.IH"(4) [OF False no rest(1) "2.prems"(1) rest] False no rest(1) show ?thesis by simp
    qed
  qed
next
  case (3 csize overlap new_separators good_splits final_chunks)
  from merged_bounded [OF "3.prems"(5), of overlap]
  obtain merged where m: "(if good_splits \<noteq> [] then merge_splits csize overlap good_splits else Some []) = Some merged"
    and bm: "bounded csize merged"
    by blast
  show ?case
  proof (cases "good_splits = []")
    case True
    with "3.prems"(6) show ?thesis by simp
  next
    case False
    with m have "merge_splits csize overlap good_splits = Some merged" by simp
    with False bm "3.prems"(6) show ?thesis by (simp add: bounded_append)
  qed
next
  case (4 csize overlap new_separators p ps good_splits final_chunks)
  from "4.prems"(4) have p: "p \<noteq> []" and ps: "\<forall>p\<in>set ps. p \<noteq> []" by simp_all
  from "4.prems"(3) have small: "new_separators = [] \<longrightarrow> (\<forall>p\<in>set ps. length p < csize)"
    by simp
  show ?case
  proof (cases "length p < csize")
    case True
    with p "4.prems"(5) have g: "\<forall>g\<in>set (good_splits @ [p]). g \<noteq> [] \<and> length g < csize"
      by auto
    from "4.IH"(1) [OF True "4.prems"(1,2) small ps g "4.prems"(6)] True show ?thesis by simp
  next
    case False
    with "4.prems"(3) have ns: "new_separators \<noteq> []" by auto
    with "4.prems"(2) have last: "last new_separators = ''''" by simp
    from merged_bounded [OF "4.prems"(5), of overlap]
    obtain merged where m: "(if good_splits \<noteq> [] then merge_splits csize overlap good_splits else Some []) = Some merged"
      and bm: "bounded csize merged"
      by blast
    from "4.IH"(3) [OF False m ns "4.prems"(1) ns last]
    obtain other where o: "split_text_rec csize overlap new_separators p = Some other"
      and bo: "bounded csize other"
      by blast
    have g0: "\<forall>g\<in>set ([]::string list). g \<noteq> [] \<and> length g < csize" by simp
    have f: "bounded csize (final_chunks @ merged @ other)"
      using "4.prems"(6) bm bo by (simp add: bounded_append)
    from "4.IH"(4) [OF False m ns o "4.prems"(1,2) small ps g0 f]
    obtain out where "split_loop csize overlap new_separators ps [] (final_chunks @ merged @ other) = Some out"
      and "bounded csize out"
      by blast
    with False m ns o show ?thesis by simp
  qed
qed

text \<open>
  Claim C8. For every text the chunker returns (it does not raise), every chunk has at
  most 1000 characters, and the chunker is a function of the text alone: equal texts
  give equal chunk sequences. The chunker is the model above, since the splitter's code
  is not in the repository.
\<close>

theorem chunk_text_bounded:
  "(\<exists>chunks. chunk_text s = Inr chunks \<and> (\<forall>c\<in>set chunks. length c \<le> 1000)) \<and>
   (s = s' \<longrightarrow> chunk_text s = chunk_text s')"
proof -
  have "separators \<noteq> []" and "last separators = ''''"
    by (simp_all add: separators_def)
  from split_bounded(1) [OF _ this, of 1000 50 s]
  obtain out where "split_text_rec 1000 50 separators s = Some out" and "bounded 1000 out"
    by auto
  then show ?thesis by (simp add: chunk_text_def bounded_def)
qed

theorem chunk_text_bounded_witness:
  "chunk_text '''' = Inr [] \<and>
   chunk_text ''alpha beta'' = Inr [''alpha beta''] \<and>
   (\<exists>chunks. chunk_text long_text = Inr chunks \<and> (\<forall>c\<in>set chunks. length c \<le> 1000)) \<and>
   split_text_rec 10 2 separators ''abcdefghijklmnopqrstuvwxyz'' =
     Some [''abcdefghij'', ''ijklmnopqr'', ''qrstuvwxyz'']"
proof -
  have a: "chunk_text '''' = Inr []"
    by code_simp
  have b: "chunk_text ''alpha beta'' = Inr [''alpha beta'']"
    by code_simp
  have c: "split_text_rec 10 2 separators ''abcdefghijklmnopqrstuvwxyz'' =
      Some [''abcdefghij'', ''ijklmnopqr'', ''qrstuvwxyz'']"
    by code_simp
  from chunk_text_bounded [of long_text long_text, THEN conjunct1] a b c show ?thesis
    by (intro conjI)
qed

end
